theory Spec2Isabelle
  imports Main "HOL-Library.Word" "HOL-Library.Monad_Syntax"
begin

section \<open>The flat binary decision tree (bintree.go)\<close>

subsection \<open>Node types and nodes\<close>

text \<open>
  \<open>BinTreeNodeType\<close> is a Go \<open>int\<close> with six named values (an \<open>iota\<close> block), so a
  node can carry a value outside the six; the validator has a \<open>default\<close> case for it.
\<close>

type_synonym BinTreeNodeType = int

definition nodeTypeLeaf :: BinTreeNodeType where "nodeTypeLeaf = 0"
definition nodeTypeOr :: BinTreeNodeType where "nodeTypeOr = 1"
definition nodeTypeAnd :: BinTreeNodeType where "nodeTypeAnd = 2"
definition nodeTypeNot :: BinTreeNodeType where "nodeTypeNot = 3"
definition nodeTypeNeor :: BinTreeNodeType where "nodeTypeNeor = 4"
definition nodeTypeLoop :: BinTreeNodeType where "nodeTypeLoop = 5"

lemmas nodeType_defs =
  nodeTypeLeaf_def nodeTypeOr_def nodeTypeAnd_def nodeTypeNot_def nodeTypeNeor_def
  nodeTypeLoop_def

definition binTreeNodeTypeHasLeft :: "BinTreeNodeType \<Rightarrow> bool" where
  "binTreeNodeTypeHasLeft nodeType \<longleftrightarrow> nodeType \<noteq> nodeTypeLeaf"

definition binTreeNodeTypeHasRight :: "BinTreeNodeType \<Rightarrow> bool" where
  "binTreeNodeTypeHasRight nodeType \<longleftrightarrow>
     nodeType \<noteq> nodeTypeLeaf \<and> nodeType \<noteq> nodeTypeNot \<and> nodeType \<noteq> nodeTypeLoop"

text \<open>\<open>binTreeNode\<close> embeds \<open>binTreePointers\<close>; indices are Go \<open>int\<close>s.\<close>

record binTreeNode =
  ParentIdx :: int
  Left :: int
  Right :: int
  NodeType :: BinTreeNodeType

definition NewBinTreeNode :: "BinTreeNodeType \<Rightarrow> int \<Rightarrow> int \<Rightarrow> int \<Rightarrow> binTreeNode" where
  "NewBinTreeNode nodeType parent left right =
     \<lparr>ParentIdx = parent, Left = left, Right = right, NodeType = nodeType\<rparr>"

text \<open>\<open>binTree\<close> has the single field \<open>data []binTreeNode\<close>.\<close>

type_synonym binTree = "binTreeNode list"

subsection \<open>Evaluation state\<close>

datatype binTreeStateValue =
  binTreeStateUnknown | binTreeStateResolved | binTreeStateTrue | binTreeStateFalse

record binTreeState =
  tree :: binTree
  data :: "binTreeStateValue list"
  stallIndex :: int

text \<open>
  A Go slice read or write at a negative index or at one past the end panics. The
  panics of this file are values; an outcome keeps the state as it was when the call
  returned or panicked, since the state is mutated in place.
\<close>

datatype panic =
  IndexOutOfRange
  | CannotResolveTwice
  | CannotCheckLeaf
  | InvalidNodeMode
  | CopyFromDifferentTree

datatype outcome = Done binTreeState | Panicked panic binTreeState

fun outcomeState :: "outcome \<Rightarrow> binTreeState" where
  "outcomeState (Done s) = s"
| "outcomeState (Panicked e s) = s"

definition nodeAt :: "binTree \<Rightarrow> int \<Rightarrow> binTreeNode option" where
  "nodeAt t i = (if 0 \<le> i \<and> i < int (length t) then Some (t ! nat i) else None)"

definition stateAt :: "binTreeState \<Rightarrow> int \<Rightarrow> binTreeStateValue option" where
  "stateAt state i =
     (if 0 \<le> i \<and> i < int (length (data state)) then Some (data state ! nat i) else None)"

text \<open>
  The write \<open>state.data[i] = v\<close>. Every write of the source follows a read of the same
  index that did not panic, so the write is in range wherever it is used; out of range it
  is left without effect here.
\<close>

definition setState :: "binTreeState \<Rightarrow> int \<Rightarrow> binTreeStateValue \<Rightarrow> binTreeState" where
  "setState state i v =
     (if 0 \<le> i \<and> i < int (length (data state))
      then state\<lparr>data := (data state)[nat i := v]\<rparr> else state)"

definition NewState :: "binTree \<Rightarrow> binTreeState" where
  "NewState t =
     \<lparr>tree = t, data = replicate (length t) binTreeStateUnknown, stallIndex = 0\<rparr>"

definition SetStallIndex :: "binTreeState \<Rightarrow> int \<Rightarrow> binTreeState \<times> int" where
  "SetStallIndex state index = (state\<lparr>stallIndex := index\<rparr>, stallIndex state)"

definition Reset :: "binTreeState \<Rightarrow> binTreeState" where
  "Reset state =
     state\<lparr>stallIndex := 0, data := map (\<lambda>_. binTreeStateUnknown) (data state)\<rparr>"

definition IsResolved :: "binTreeState \<Rightarrow> int \<Rightarrow> bool option" where
  "IsResolved state index =
     map_option (\<lambda>v. v \<noteq> binTreeStateUnknown) (stateAt state index)"

definition IsTrue :: "binTreeState \<Rightarrow> int \<Rightarrow> bool option" where
  "IsTrue state index = map_option (\<lambda>v. v = binTreeStateTrue) (stateAt state index)"

subsection \<open>Descendant resolution\<close>

definition unknownCount :: "binTreeState \<Rightarrow> nat" where
  "unknownCount state = length (filter (\<lambda>v. v = binTreeStateUnknown) (data state))"

text \<open>
  \<open>resolveRecursive\<close> walks the left and right links and descends only into a child
  that it has just turned from \<open>Unknown\<close> to \<open>Resolved\<close>. The second descent runs on
  the state the first one left behind.
\<close>

function resolveRecursive :: "binTreeState \<Rightarrow> int \<Rightarrow> outcome" where
  "resolveRecursive state index =
     (case nodeAt (tree state) index of
        None \<Rightarrow> Panicked IndexOutOfRange state
      | Some defNode \<Rightarrow>
         (case (if binTreeNodeTypeHasLeft (NodeType defNode) then
                  (case stateAt state (Left defNode) of
                     None \<Rightarrow> Panicked IndexOutOfRange state
                   | Some v \<Rightarrow>
                       if v = binTreeStateUnknown then
                         resolveRecursive
                           (setState state (Left defNode) binTreeStateResolved) (Left defNode)
                       else Done state)
                else Done state) of
            Panicked e st \<Rightarrow> Panicked e st
          | Done state1 \<Rightarrow>
              if binTreeNodeTypeHasRight (NodeType defNode) then
                (case stateAt state1 (Right defNode) of
                   None \<Rightarrow> Panicked IndexOutOfRange state1
                 | Some v \<Rightarrow>
                     if v = binTreeStateUnknown then
                       resolveRecursive
                         (setState state1 (Right defNode) binTreeStateResolved) (Right defNode)
                     else Done state1)
              else Done state1))"
  by pat_completeness auto

lemma filter_update_less:
  "i < length xs \<Longrightarrow> P (xs ! i) \<Longrightarrow> \<not> P v \<Longrightarrow>
     length (filter P (xs[i := v])) < length (filter P xs)"
proof (induction xs arbitrary: i)
  case Nil
  then show ?case by simp
next
  case (Cons x xs)
  then show ?case by (cases i) auto
qed

lemma unknownCount_setState:
  assumes "stateAt state i = Some binTreeStateUnknown" and "v \<noteq> binTreeStateUnknown"
  shows "unknownCount (setState state i v) < unknownCount state"
proof -
  from assms(1) have "nat i < length (data state)"
    and "data state ! nat i = binTreeStateUnknown"
    by (auto simp: stateAt_def split: if_splits)
  then show ?thesis
    using assms(1,2)
    by (simp add: unknownCount_def setState_def stateAt_def filter_update_less
        split: if_splits)
qed

definition isChild :: "binTreeNode \<Rightarrow> int \<Rightarrow> bool" where
  "isChild defNode c \<longleftrightarrow>
     binTreeNodeTypeHasLeft (NodeType defNode) \<and> c = Left defNode
     \<or> binTreeNodeTypeHasRight (NodeType defNode) \<and> c = Right defNode"

lemma tree_setState [simp]: "tree (setState s c v) = tree s"
  and stallIndex_setState [simp]: "stallIndex (setState s c v) = stallIndex s"
  and length_data_setState [simp]: "length (data (setState s c v)) = length (data s)"
  by (simp_all add: setState_def)

lemma stateAt_setState:
  "stateAt (setState s c v) j =
     (if j = c \<and> 0 \<le> c \<and> c < int (length (data s)) then Some v else stateAt s j)"
  by (auto simp: stateAt_def setState_def nth_list_update nat_eq_iff)

text \<open>
  Whatever relation holds across one write of \<open>Resolved\<close> over an \<open>Unknown\<close> child,
  and is reflexive and transitive, holds across a whole walk, finished or panicked.
\<close>

lemma resolveRecursive_dom_rel:
  assumes "resolveRecursive_dom (state, index)"
    and refl: "\<And>s. Q s s"
    and trans: "\<And>a b c. Q a b \<Longrightarrow> Q b c \<Longrightarrow> Q a c"
    and step: "\<And>s n defNode c. nodeAt (tree s) n = Some defNode \<Longrightarrow> isChild defNode c \<Longrightarrow>
                 stateAt s c = Some binTreeStateUnknown \<Longrightarrow>
                 Q s (setState s c binTreeStateResolved)"
  shows "Q state (outcomeState (resolveRecursive state index))
         \<and> tree (outcomeState (resolveRecursive state index)) = tree state"
  using assms(1)
proof (induct rule: resolveRecursive.pinduct)
  case (1 state index)
  show ?case
  proof (cases "nodeAt (tree state) index")
    case None
    then show ?thesis by (simp add: resolveRecursive.psimps [OF 1(1)] refl)
  next
    case (Some defNode)
    define lres where "lres =
      (if binTreeNodeTypeHasLeft (NodeType defNode) then
         (case stateAt state (Left defNode) of
            None \<Rightarrow> Panicked IndexOutOfRange state
          | Some v \<Rightarrow>
              if v = binTreeStateUnknown then
                resolveRecursive
                  (setState state (Left defNode) binTreeStateResolved) (Left defNode)
              else Done state)
       else Done state)"
    have l: "Q state (outcomeState lres) \<and> tree (outcomeState lres) = tree state"
    proof (cases "binTreeNodeTypeHasLeft (NodeType defNode)
                  \<and> stateAt state (Left defNode) = Some binTreeStateUnknown")
      case True
      then have "Q (setState state (Left defNode) binTreeStateResolved) (outcomeState lres)
                 \<and> tree (outcomeState lres) = tree state"
        using 1(2) [OF Some] by (simp add: lres_def)
      moreover have "Q state (setState state (Left defNode) binTreeStateResolved)"
        using True Some by (intro step [of state index defNode]) (simp_all add: isChild_def)
      ultimately show ?thesis by (blast intro: trans)
    next
      case False
      then show ?thesis by (auto simp: lres_def refl split: option.splits)
    qed
    show ?thesis
    proof (cases lres)
      case (Panicked e st)
      then show ?thesis using l Some
        by (simp add: resolveRecursive.psimps [OF 1(1)] lres_def [symmetric])
    next
      case (Done state1)
      have eq: "resolveRecursive state index =
        (if binTreeNodeTypeHasRight (NodeType defNode) then
           (case stateAt state1 (Right defNode) of
              None \<Rightarrow> Panicked IndexOutOfRange state1
            | Some v \<Rightarrow>
                if v = binTreeStateUnknown then
                  resolveRecursive
                    (setState state1 (Right defNode) binTreeStateResolved) (Right defNode)
                else Done state1)
         else Done state1)"
        using Some Done by (simp add: resolveRecursive.psimps [OF 1(1)] lres_def [symmetric])
      from l Done have l': "Q state state1" and t': "tree state1 = tree state" by simp_all
      show ?thesis
      proof (cases "binTreeNodeTypeHasRight (NodeType defNode)
                    \<and> stateAt state1 (Right defNode) = Some binTreeStateUnknown")
        case True
        have "Q (setState state1 (Right defNode) binTreeStateResolved)
                (outcomeState (resolveRecursive state index))
              \<and> tree (outcomeState (resolveRecursive state index)) = tree state1"
          using 1(3) [OF Some Done [unfolded lres_def]] True by (simp add: eq)
        moreover have "Q state1 (setState state1 (Right defNode) binTreeStateResolved)"
          using True Some t'
          by (intro step [of state1 index defNode]) (simp_all add: isChild_def)
        ultimately show ?thesis using l' t' by (metis trans)
      next
        case False
        then show ?thesis using l' t' by (auto simp: eq split: option.splits)
      qed
    qed
  qed
qed

lemma resolveRecursive_total: "All resolveRecursive_dom"
proof (relation "measure (\<lambda>(state, index). unknownCount state)", goal_cases)
  case 1
  show ?case by simp
next
  case (2 state index defNode v)
  then show ?case by (simp add: unknownCount_setState)
next
  case (3 state index defNode state1 v)
  have "unknownCount state1 \<le> unknownCount state"
  proof (cases "binTreeNodeTypeHasLeft (NodeType defNode)
                \<and> stateAt state (Left defNode) = Some binTreeStateUnknown")
    case True
    then have dom: "resolveRecursive_dom
        (setState state (Left defNode) binTreeStateResolved, Left defNode)"
      and r: "resolveRecursive (setState state (Left defNode) binTreeStateResolved)
                (Left defNode) = Done state1"
      using 3(2,6) by simp_all
    have "unknownCount (outcomeState (resolveRecursive
             (setState state (Left defNode) binTreeStateResolved) (Left defNode)))
          \<le> unknownCount (setState state (Left defNode) binTreeStateResolved)"
      proof -
      have "\<And>s c. stateAt s c = Some binTreeStateUnknown \<Longrightarrow>
              unknownCount (setState s c binTreeStateResolved) \<le> unknownCount s"
        using unknownCount_setState [where v = binTreeStateResolved]
        by (simp add: less_imp_le)
      with resolveRecursive_dom_rel
        [OF dom, where Q = "\<lambda>a b. unknownCount b \<le> unknownCount a"]
      show ?thesis by simp
    qed
    also have "\<dots> < unknownCount state"
      using True by (simp add: unknownCount_setState)
    finally show ?thesis using r by simp
  next
    case False
    then show ?thesis using 3(2) by (auto split: option.splits if_splits)
  qed
  moreover have
    "unknownCount (setState state1 (Right defNode) binTreeStateResolved) < unknownCount state1"
    using 3(4,5) by (simp add: unknownCount_setState)
  ultimately show ?case by simp
qed

termination resolveRecursive
  by (rule resolveRecursive_total)

declare resolveRecursive.simps [simp del]

lemma resolveRecursive_rel:
  assumes "\<And>s. Q s s"
    and "\<And>a b c. Q a b \<Longrightarrow> Q b c \<Longrightarrow> Q a c"
    and "\<And>s n defNode c. nodeAt (tree s) n = Some defNode \<Longrightarrow> isChild defNode c \<Longrightarrow>
           stateAt s c = Some binTreeStateUnknown \<Longrightarrow>
           Q s (setState s c binTreeStateResolved)"
  shows "Q state (outcomeState (resolveRecursive state index))"
proof -
  have "resolveRecursive_dom (state, index)"
    using resolveRecursive_total by simp
  from resolveRecursive_dom_rel [of state index Q, OF this] assms show ?thesis
    by blast
qed

lemma resolveRecursive_count:
  "unknownCount (outcomeState (resolveRecursive state index)) \<le> unknownCount state"
  by (rule resolveRecursive_rel [where Q = "\<lambda>a b. unknownCount b \<le> unknownCount a"])
     (auto dest: unknownCount_setState [where v = binTreeStateResolved])

subsection \<open>Marking a node and checking its parent\<close>

text \<open>
  \<open>MarkNode\<close> and \<open>checkNode\<close> call each other. The Go conditions \<open>||\<close> and \<open>&&\<close>
  read their right operand only when the left one does not decide, so a read that is
  skipped cannot panic.
\<close>

function MarkNode :: "binTreeState \<Rightarrow> int \<Rightarrow> bool \<Rightarrow> outcome"
  and checkNode :: "binTreeState \<Rightarrow> int \<Rightarrow> outcome" where
  "MarkNode state index value =
     (case stateAt state index of
        None \<Rightarrow> Panicked IndexOutOfRange state
      | Some cur \<Rightarrow>
          if cur \<noteq> binTreeStateUnknown then Panicked CannotResolveTwice state
          else
            (case resolveRecursive
                    (setState state index
                       (if value then binTreeStateTrue else binTreeStateFalse)) index of
               Panicked e st \<Rightarrow> Panicked e st
             | Done state2 \<Rightarrow>
                 if index = 0 then Done state2
                 else if index = stallIndex state2 then Done state2
                 else
                   (case nodeAt (tree state2) index of
                      None \<Rightarrow> Panicked IndexOutOfRange state2
                    | Some defNode \<Rightarrow> checkNode state2 (ParentIdx defNode))))"
| "checkNode state index =
     (case nodeAt (tree state) index of
        None \<Rightarrow> Panicked IndexOutOfRange state
      | Some defNode \<Rightarrow>
          if NodeType defNode = nodeTypeLeaf then Panicked CannotCheckLeaf state
          else if NodeType defNode = nodeTypeOr then
            (case stateAt state (Left defNode) of
               None \<Rightarrow> Panicked IndexOutOfRange state
             | Some l \<Rightarrow>
                 if l = binTreeStateTrue then MarkNode state index True
                 else
                   (case stateAt state (Right defNode) of
                      None \<Rightarrow> Panicked IndexOutOfRange state
                    | Some r \<Rightarrow>
                        if r = binTreeStateTrue then MarkNode state index True
                        else if l = binTreeStateFalse \<and> r = binTreeStateFalse
                        then MarkNode state index False
                        else Done state))
          else if NodeType defNode = nodeTypeNeor then
            (case stateAt state (Left defNode) of
               None \<Rightarrow> Panicked IndexOutOfRange state
             | Some l \<Rightarrow>
                 if l = binTreeStateUnknown then Done state
                 else
                   (case stateAt state (Right defNode) of
                      None \<Rightarrow> Panicked IndexOutOfRange state
                    | Some r \<Rightarrow>
                        if r = binTreeStateUnknown then Done state
                        else if l = binTreeStateTrue \<or> r = binTreeStateTrue
                        then MarkNode state index True
                        else MarkNode state index False))
          else if NodeType defNode = nodeTypeAnd then
            (case stateAt state (Left defNode) of
               None \<Rightarrow> Panicked IndexOutOfRange state
             | Some l \<Rightarrow>
                 if l = binTreeStateTrue then
                   (case stateAt state (Right defNode) of
                      None \<Rightarrow> Panicked IndexOutOfRange state
                    | Some r \<Rightarrow>
                        if r = binTreeStateTrue then MarkNode state index True
                        else if r = binTreeStateFalse then MarkNode state index False
                        else Done state)
                 else if l = binTreeStateFalse then MarkNode state index False
                 else
                   (case stateAt state (Right defNode) of
                      None \<Rightarrow> Panicked IndexOutOfRange state
                    | Some r \<Rightarrow>
                        if r = binTreeStateFalse then MarkNode state index False
                        else Done state))
          else if NodeType defNode = nodeTypeNot then
            (case stateAt state (Left defNode) of
               None \<Rightarrow> Panicked IndexOutOfRange state
             | Some l \<Rightarrow>
                 if l = binTreeStateTrue then MarkNode state index (\<not> True)
                 else if l = binTreeStateFalse then MarkNode state index (\<not> False)
                 else Done state)
          else if NodeType defNode = nodeTypeLoop then
            (case stateAt state (Left defNode) of
               None \<Rightarrow> Panicked IndexOutOfRange state
             | Some l \<Rightarrow>
                 if l = binTreeStateTrue then MarkNode state index True
                 else if l = binTreeStateFalse then MarkNode state index False
                 else Done state)
          else Panicked InvalidNodeMode state)"
  by pat_completeness auto


termination MarkNode
proof (relation "measure (\<lambda>x. case x of
          Inl (state, index, value) \<Rightarrow> 2 * unknownCount state
        | Inr (state, index) \<Rightarrow> 2 * unknownCount state + 1)", goal_cases)
  case 1
  show ?case by simp
next
  case (2 state index "value" cur state2 defNode)
  let ?s1 = "setState state index (if value then binTreeStateTrue else binTreeStateFalse)"
  have "unknownCount state2 \<le> unknownCount ?s1"
    using resolveRecursive_count [of ?s1 index] 2(3) by simp
  also have "\<dots> < unknownCount state"
    using 2(1,2) by (simp add: unknownCount_setState)
  finally show ?case by simp
qed simp_all

declare MarkNode.simps [simp del] checkNode.simps [simp del]

text \<open>
  What \<open>checkNode\<close> decides for a node, read off its branches: every branch ends in a
  call of \<open>MarkNode\<close> on the checked node, in a plain return, or in a panic.
\<close>

datatype decision = MarkAs bool | Leave | Fail panic

definition checkDecision :: "binTreeState \<Rightarrow> binTreeNode \<Rightarrow> decision" where
  "checkDecision state defNode =
     (if NodeType defNode = nodeTypeLeaf then Fail CannotCheckLeaf
      else if NodeType defNode = nodeTypeOr then
        (case stateAt state (Left defNode) of
           None \<Rightarrow> Fail IndexOutOfRange
         | Some l \<Rightarrow>
             if l = binTreeStateTrue then MarkAs True
             else
               (case stateAt state (Right defNode) of
                  None \<Rightarrow> Fail IndexOutOfRange
                | Some r \<Rightarrow>
                    if r = binTreeStateTrue then MarkAs True
                    else if l = binTreeStateFalse \<and> r = binTreeStateFalse then MarkAs False
                    else Leave))
      else if NodeType defNode = nodeTypeNeor then
        (case stateAt state (Left defNode) of
           None \<Rightarrow> Fail IndexOutOfRange
         | Some l \<Rightarrow>
             if l = binTreeStateUnknown then Leave
             else
               (case stateAt state (Right defNode) of
                  None \<Rightarrow> Fail IndexOutOfRange
                | Some r \<Rightarrow>
                    if r = binTreeStateUnknown then Leave
                    else MarkAs (l = binTreeStateTrue \<or> r = binTreeStateTrue)))
      else if NodeType defNode = nodeTypeAnd then
        (case stateAt state (Left defNode) of
           None \<Rightarrow> Fail IndexOutOfRange
         | Some l \<Rightarrow>
             if l = binTreeStateTrue then
               (case stateAt state (Right defNode) of
                  None \<Rightarrow> Fail IndexOutOfRange
                | Some r \<Rightarrow>
                    if r = binTreeStateTrue then MarkAs True
                    else if r = binTreeStateFalse then MarkAs False
                    else Leave)
             else if l = binTreeStateFalse then MarkAs False
             else
               (case stateAt state (Right defNode) of
                  None \<Rightarrow> Fail IndexOutOfRange
                | Some r \<Rightarrow> if r = binTreeStateFalse then MarkAs False else Leave))
      else if NodeType defNode = nodeTypeNot then
        (case stateAt state (Left defNode) of
           None \<Rightarrow> Fail IndexOutOfRange
         | Some l \<Rightarrow>
             if l = binTreeStateTrue then MarkAs False
             else if l = binTreeStateFalse then MarkAs True
             else Leave)
      else if NodeType defNode = nodeTypeLoop then
        (case stateAt state (Left defNode) of
           None \<Rightarrow> Fail IndexOutOfRange
         | Some l \<Rightarrow>
             if l = binTreeStateTrue then MarkAs True
             else if l = binTreeStateFalse then MarkAs False
             else Leave)
      else Fail InvalidNodeMode)"

lemma checkNode_unfold:
  "checkNode state index =
     (case nodeAt (tree state) index of
        None \<Rightarrow> Panicked IndexOutOfRange state
      | Some defNode \<Rightarrow>
          (case checkDecision state defNode of
             MarkAs v \<Rightarrow> MarkNode state index v
           | Leave \<Rightarrow> Done state
           | Fail e \<Rightarrow> Panicked e state))"
  by (simp add: checkNode.simps checkDecision_def split: option.splits)

definition boolState :: "bool \<Rightarrow> binTreeStateValue" where
  "boolState v = (if v then binTreeStateTrue else binTreeStateFalse)"

lemma MarkNode_unfold:
  "MarkNode state index val =
     (case stateAt state index of
        None \<Rightarrow> Panicked IndexOutOfRange state
      | Some cur \<Rightarrow>
          if cur \<noteq> binTreeStateUnknown then Panicked CannotResolveTwice state
          else
            (case resolveRecursive (setState state index (boolState val)) index of
               Panicked e st \<Rightarrow> Panicked e st
             | Done state2 \<Rightarrow>
                 if index = 0 \<or> index = stallIndex state2 then Done state2
                 else
                   (case nodeAt (tree state2) index of
                      None \<Rightarrow> Panicked IndexOutOfRange state2
                    | Some defNode \<Rightarrow>
                       (case nodeAt (tree state2) (ParentIdx defNode) of
                          None \<Rightarrow> Panicked IndexOutOfRange state2
                        | Some pNode \<Rightarrow>
                           (case checkDecision state2 pNode of
                              MarkAs v \<Rightarrow> MarkNode state2 (ParentIdx defNode) v
                            | Leave \<Rightarrow> Done state2
                            | Fail e \<Rightarrow> Panicked e state2)))))"
  by (simp add: MarkNode.simps [of state index val] checkNode_unfold boolState_def
      split: option.splits outcome.splits)

lemma MarkNode_up_induct [case_names step]:
  assumes "\<And>state index val.
     (\<And>state2 defNode pNode v.
        \<lbrakk>stateAt state index = Some binTreeStateUnknown;
         resolveRecursive (setState state index (boolState val)) index = Done state2;
         index \<noteq> 0; index \<noteq> stallIndex state2;
         nodeAt (tree state2) index = Some defNode;
         nodeAt (tree state2) (ParentIdx defNode) = Some pNode;
         checkDecision state2 pNode = MarkAs v\<rbrakk>
        \<Longrightarrow> P state2 (ParentIdx defNode) v)
     \<Longrightarrow> P state index val"
  shows "P state index val"
proof (induction "unknownCount state" arbitrary: state index val rule: less_induct)
  case (less state index val)
  show ?case
  proof (rule assms)
    fix state2 and defNode pNode :: binTreeNode and v
    assume u: "stateAt state index = Some binTreeStateUnknown"
      and r: "resolveRecursive (setState state index (boolState val)) index = Done state2"
    have "unknownCount state2 \<le> unknownCount (setState state index (boolState val))"
      using resolveRecursive_count [of "setState state index (boolState val)" index] r
      by simp
    also have "\<dots> < unknownCount state"
      using u by (simp add: unknownCount_setState boolState_def)
    finally show "P state2 (ParentIdx defNode) v" by (rule less)
  qed
qed


lemma boolState_neq [simp]: "boolState v \<noteq> binTreeStateUnknown"
  by (simp add: boolState_def)

lemma MarkNode_rel:
  assumes refl: "\<And>s. Q s s"
    and trans: "\<And>a b c. Q a b \<Longrightarrow> Q b c \<Longrightarrow> Q a c"
    and stepR: "\<And>s n defNode c. nodeAt (tree s) n = Some defNode \<Longrightarrow> isChild defNode c \<Longrightarrow>
           stateAt s c = Some binTreeStateUnknown \<Longrightarrow>
           Q s (setState s c binTreeStateResolved)"
    and stepM: "\<And>s c v. stateAt s c = Some binTreeStateUnknown \<Longrightarrow>
           Q s (setState s c (boolState v))"
  shows "Q state (outcomeState (MarkNode state index val))"
proof (induction state index val rule: MarkNode_up_induct)
  case (step state index val)
  show ?case
  proof (cases "stateAt state index = Some binTreeStateUnknown")
    case False
    then show ?thesis
      by (subst MarkNode_unfold) (auto simp: refl split: option.splits)
  next
    case True
    let ?s1 = "setState state index (boolState val)"
    have q1: "Q state ?s1" using True by (rule stepM)
    have q2: "Q ?s1 (outcomeState (resolveRecursive ?s1 index))"
      by (rule resolveRecursive_rel [where Q = Q]) (fact refl trans stepR)+
    show ?thesis
    proof (cases "resolveRecursive ?s1 index")
      case (Panicked e st)
      then show ?thesis using True q1 q2
        by (subst MarkNode_unfold) (auto intro: trans)
    next
      case (Done state2)
      with q1 q2 have q: "Q state state2" by (auto intro: trans)
      have "Q state2 (outcomeState (MarkNode state2 (ParentIdx defNode) v))"
        if "index \<noteq> 0" "index \<noteq> stallIndex state2"
          "nodeAt (tree state2) index = Some defNode"
          "nodeAt (tree state2) (ParentIdx defNode) = Some pNode"
          "checkDecision state2 pNode = MarkAs v" for defNode pNode v
        using step [OF True Done that] .
      then show ?thesis using True Done q
        by (subst MarkNode_unfold)
           (auto intro: trans split: option.splits decision.splits)
    qed
  qed
qed

text \<open>
  \<open>preserves a b\<close>: \<open>b\<close> is over the same tree, with the same stall index and as many
  entries as \<open>a\<close>, and every entry of \<open>a\<close> that is not \<open>Unknown\<close> is the same in \<open>b\<close>.
\<close>

definition preserves :: "binTreeState \<Rightarrow> binTreeState \<Rightarrow> bool" where
  "preserves a b \<longleftrightarrow>
     tree b = tree a \<and> stallIndex b = stallIndex a \<and> length (data b) = length (data a)
     \<and> (\<forall>j x. stateAt a j = Some x \<and> x \<noteq> binTreeStateUnknown \<longrightarrow> stateAt b j = Some x)"

lemma preserves_refl: "preserves s s"
  by (simp add: preserves_def)

lemma preserves_trans: "preserves a b \<Longrightarrow> preserves b c \<Longrightarrow> preserves a c"
  by (simp add: preserves_def)

lemma preserves_setState:
  "stateAt s c = Some binTreeStateUnknown \<Longrightarrow> preserves s (setState s c v)"
  by (auto simp: preserves_def stateAt_setState)

lemma resolveRecursive_preserves:
  "preserves state (outcomeState (resolveRecursive state index))"
  by (rule resolveRecursive_rel [where Q = preserves])
     (auto intro: preserves_refl preserves_trans preserves_setState)

lemma MarkNode_preserves: "preserves state (outcomeState (MarkNode state index val))"
  by (rule MarkNode_rel [where Q = preserves])
     (auto intro: preserves_refl preserves_trans preserves_setState)

lemma checkNode_preserves: "preserves state (outcomeState (checkNode state index))"
  using MarkNode_preserves [of state index]
  by (auto simp: checkNode_unfold preserves_refl split: option.splits decision.splits)


subsection \<open>Resolve\<close>

text \<open>
  The loop of \<open>Resolve\<close>, \<open>for i := treeLength - 1; i >= 0; i--\<close>, with its \<open>break\<close>
  once the root is no longer \<open>Unknown\<close>.
\<close>

function resolveLoop :: "binTreeState \<Rightarrow> int \<Rightarrow> outcome" where
  "resolveLoop state i =
     (if i \<ge> 0 then
        (case stateAt state i of
           None \<Rightarrow> Panicked IndexOutOfRange state
         | Some v \<Rightarrow>
             (case (if v = binTreeStateUnknown then MarkNode state i False else Done state) of
                Panicked e st \<Rightarrow> Panicked e st
              | Done state1 \<Rightarrow>
                  (case stateAt state1 0 of
                     None \<Rightarrow> Panicked IndexOutOfRange state1
                   | Some r \<Rightarrow>
                       if r \<noteq> binTreeStateUnknown then Done state1
                       else resolveLoop state1 (i - 1))))
      else Done state)"
  by pat_completeness auto
termination
  by (relation "measure (\<lambda>(state, i). nat (i + 1))") auto

declare resolveLoop.simps [simp del]

definition Resolve :: "binTreeState \<Rightarrow> outcome" where
  "Resolve state =
     (case IsResolved state 0 of
        None \<Rightarrow> Panicked IndexOutOfRange state
      | Some resolved \<Rightarrow>
          if resolved then Done state
          else resolveLoop state (int (length (data state)) - 1))"

text \<open>
  The specification's wording of \<open>Resolve\<close>, to compare with the loop above: go over the
  indices from the last one down to 0; at each index do nothing once the root is no longer
  \<open>Unknown\<close> (the iteration has stopped), and otherwise mark the node \<open>false\<close> if it is
  still \<open>Unknown\<close>. A panic ends the run.
\<close>

fun resolveStep :: "outcome \<Rightarrow> nat \<Rightarrow> outcome" where
  "resolveStep (Panicked e st) i = Panicked e st"
| "resolveStep (Done state) i =
     (if stateAt state 0 \<noteq> Some binTreeStateUnknown then Done state
      else if stateAt state (int i) = Some binTreeStateUnknown
      then MarkNode state (int i) False
      else Done state)"

definition Resolve_spec :: "binTreeState \<Rightarrow> outcome" where
  "Resolve_spec state = foldl resolveStep (Done state) (rev [0..<length (data state)])"

lemma MarkNode_sets:
  assumes "stateAt state index = Some binTreeStateUnknown"
  shows "stateAt (outcomeState (MarkNode state index val)) index = Some (boolState val)"
proof -
  let ?s1 = "setState state index (boolState val)"
  have s1: "stateAt ?s1 index = Some (boolState val)"
  proof -
    from assms have "0 \<le> index \<and> index < int (length (data state))"
      by (auto simp: stateAt_def split: if_splits)
    then show ?thesis by (simp add: stateAt_setState)
  qed
  have p2: "preserves ?s1 (outcomeState (resolveRecursive ?s1 index))"
    by (rule resolveRecursive_preserves)
  show ?thesis
  proof (cases "resolveRecursive ?s1 index")
    case (Panicked e st)
    then show ?thesis using assms s1 p2
      by (subst MarkNode_unfold) (auto simp: preserves_def)
  next
    case (Done state2)
    with s1 p2 have s2: "stateAt state2 index = Some (boolState val)"
      by (auto simp: preserves_def)
    have "stateAt (outcomeState (MarkNode state2 p v)) index = Some (boolState val)" for p v
      using MarkNode_preserves [of state2 p v] s2 by (auto simp: preserves_def)
    then show ?thesis using assms Done s2
      by (subst MarkNode_unfold) (auto split: option.splits decision.splits)
  qed
qed

lemma foldl_resolveStep_Panicked: "foldl resolveStep (Panicked e st) is = Panicked e st"
  by (induction "is") simp_all

lemma foldl_resolveStep_stopped:
  "stateAt state 0 \<noteq> Some binTreeStateUnknown \<Longrightarrow> foldl resolveStep (Done state) is = Done state"
  by (induction "is") simp_all

lemma resolveLoop_fold:
  assumes "n \<le> length (data state)" and "stateAt state 0 = Some binTreeStateUnknown"
  shows "resolveLoop state (int n - 1) = foldl resolveStep (Done state) (rev [0..<n])"
  using assms
proof (induction n arbitrary: state)
  case 0
  then show ?case by (simp add: resolveLoop.simps)
next
  case (Suc m)
  from Suc.prems obtain v where v: "stateAt state (int m) = Some v"
    by (auto simp: stateAt_def)
  define o1 where "o1 = (if v = binTreeStateUnknown then MarkNode state (int m) False else Done state)"
  have step: "resolveStep (Done state) m = o1"
    using Suc.prems v by (auto simp: o1_def)
  have pres: "preserves state (outcomeState o1)"
    using MarkNode_preserves [of state "int m" False] by (simp add: o1_def preserves_refl)
  have arg: "int (Suc m) - 1 = int m" by simp
  have unf: "resolveLoop state (int m) =
    (case o1 of
       Panicked e st \<Rightarrow> Panicked e st
     | Done state1 \<Rightarrow>
         (case stateAt state1 0 of
            None \<Rightarrow> Panicked IndexOutOfRange state1
          | Some r \<Rightarrow>
              if r \<noteq> binTreeStateUnknown then Done state1
              else resolveLoop state1 (int m - 1)))"
    using v by (subst resolveLoop.simps) (simp add: o1_def)
  have fld: "foldl resolveStep (Done state) (rev [0..<Suc m])
             = foldl resolveStep o1 (rev [0..<m])"
    using step by simp
  show ?case
  proof (cases o1)
    case (Panicked e st)
    then show ?thesis
      by (simp only: arg unf fld outcome.case foldl_resolveStep_Panicked)
  next
    case (Done state1)
    with pres have len: "length (data state1) = length (data state)"
      by (simp add: preserves_def)
    then obtain r where r: "stateAt state1 0 = Some r"
      using Suc.prems by (cases "data state") (auto simp: stateAt_def)
    show ?thesis
    proof (cases "r = binTreeStateUnknown")
      case True
      have "resolveLoop state1 (int m - 1) = foldl resolveStep (Done state1) (rev [0..<m])"
        using Suc.prems len r True by (intro Suc.IH) auto
      then show ?thesis using Done r True
        by (simp only: arg unf fld) simp
    next
      case False
      then show ?thesis using Done r
        by (simp only: arg unf fld) (simp add: foldl_resolveStep_stopped)
    qed
  qed
qed

lemma Resolve_refines:
  assumes "data state \<noteq> []"
  shows "Resolve state = Resolve_spec state"
proof -
  from assms obtain r where r: "stateAt state 0 = Some r"
    by (auto simp: stateAt_def)
  show ?thesis
  proof (cases "r = binTreeStateUnknown")
    case True
    then show ?thesis using r resolveLoop_fold [of "length (data state)" state]
      by (simp add: Resolve_def Resolve_spec_def IsResolved_def)
  next
    case False
    then show ?thesis using r
      by (simp add: Resolve_def Resolve_spec_def IsResolved_def foldl_resolveStep_stopped)
  qed
qed

lemma resolveLoop_root:
  "resolveLoop state i = Done s' \<Longrightarrow> 0 \<le> i \<Longrightarrow>
     \<exists>r. stateAt s' 0 = Some r \<and> r \<noteq> binTreeStateUnknown"
proof (induction state i rule: resolveLoop.induct)
  case (1 state i)
  from "1.prems" obtain v where v: "stateAt state i = Some v"
    by (subst (asm) resolveLoop.simps) (auto split: option.splits)
  define o1 where "o1 = (if v = binTreeStateUnknown then MarkNode state i False else Done state)"
  from "1.prems" v obtain state1 r where o1: "o1 = Done state1" and r: "stateAt state1 0 = Some r"
    by (subst (asm) resolveLoop.simps)
       (auto simp: o1_def split: option.splits outcome.splits if_splits)
  show ?case
  proof (cases "r = binTreeStateUnknown")
    case False
    then show ?thesis using "1.prems" v o1 r
      by (subst (asm) resolveLoop.simps) (auto simp: o1_def [symmetric])
  next
    case True
    then have rec: "resolveLoop state1 (i - 1) = Done s'"
      using "1.prems" v o1 r
      by (subst (asm) resolveLoop.simps) (auto simp: o1_def [symmetric])
    have "i \<noteq> 0"
    proof
      assume i0: "i = 0"
      show False
      proof (cases "v = binTreeStateUnknown")
        case True
        then have "stateAt (outcomeState (MarkNode state 0 False)) 0 = Some (boolState False)"
          using v i0 by (intro MarkNode_sets) simp
        then show False using o1 r \<open>r = binTreeStateUnknown\<close> True i0
          by (simp add: o1_def boolState_def)
      next
        case False
        then show False using o1 r v i0 \<open>r = binTreeStateUnknown\<close>
          by (simp add: o1_def)
      qed
    qed
    with "1.prems" have i1: "0 \<le> i - 1" by simp
    have o1': "(if v = binTreeStateUnknown then MarkNode state i False else Done state)
               = Done state1"
      using o1 by (simp add: o1_def)
    have "\<not> r \<noteq> binTreeStateUnknown" using True by simp
    from "1.IH" [OF "1.prems"(2) v o1' r this rec i1] show ?thesis .
  qed
qed

lemma Resolve_root:
  assumes "Resolve state = Done s'"
  shows "\<exists>r. stateAt s' 0 = Some r \<and> r \<noteq> binTreeStateUnknown"
proof -
  from assms obtain r where r: "stateAt state 0 = Some r"
    by (auto simp: Resolve_def IsResolved_def split: option.splits)
  then have "0 < length (data state)" by (auto simp: stateAt_def split: if_splits)
  then show ?thesis using assms r resolveLoop_root [of state "int (length (data state)) - 1" s']
    by (auto simp: Resolve_def IsResolved_def split: if_splits)
qed


subsection \<open>CopyFrom\<close>

text \<open>
  \<open>CopyFrom\<close> first compares the two tree pointers, \<open>state.tree != ostate.tree\<close>. A state
  holds its tree as a value here, so what the comparison of the pointers gives is the
  parameter \<open>sameTree\<close>. The loop \<open>for i, item := range ostate.data\<close> is \<open>copyLoop\<close>, with
  the items still to copy and the index of the next one; the write \<open>state.data[i] = item\<close>
  panics past the end of \<open>state.data\<close>, with the items before it already written.
\<close>

fun copyLoop :: "binTreeState \<Rightarrow> binTreeStateValue list \<Rightarrow> nat \<Rightarrow> outcome" where
  "copyLoop state [] i = Done state"
| "copyLoop state (item # rest) i =
     (if i < length (data state)
      then copyLoop (state\<lparr>data := (data state)[i := item]\<rparr>) rest (Suc i)
      else Panicked IndexOutOfRange state)"

definition CopyFrom :: "bool \<Rightarrow> binTreeState \<Rightarrow> binTreeState \<Rightarrow> outcome" where
  "CopyFrom sameTree state ostate =
     (if \<not> sameTree then Panicked CopyFromDifferentTree state
      else copyLoop state (data ostate) 0)"

subsection \<open>ResetNode\<close>

text \<open>
  \<open>resetNodeRecursive\<close> follows the left and right links without looking at the state,
  so on links that form a cycle it does not return; \<open>None\<close> is that case.
\<close>

partial_function (option) resetNodeRecursive :: "binTreeState \<Rightarrow> int \<Rightarrow> outcome option" where
  "resetNodeRecursive state index =
     (case stateAt state index of
        None \<Rightarrow> Some (Panicked IndexOutOfRange state)
      | Some old \<Rightarrow>
          (case nodeAt (tree state) index of
             None \<Rightarrow> Some (Panicked IndexOutOfRange (setState state index binTreeStateUnknown))
           | Some defNode \<Rightarrow>
               Option.bind
                 (if binTreeNodeTypeHasLeft (NodeType defNode)
                  then resetNodeRecursive (setState state index binTreeStateUnknown) (Left defNode)
                  else Some (Done (setState state index binTreeStateUnknown)))
                 (\<lambda>o1. case o1 of
                    Panicked e st \<Rightarrow> Some (Panicked e st)
                  | Done state1 \<Rightarrow>
                      if binTreeNodeTypeHasRight (NodeType defNode)
                      then resetNodeRecursive state1 (Right defNode)
                      else Some (Done state1))))"

definition ResetNode :: "binTreeState \<Rightarrow> int \<Rightarrow> outcome option" where
  "ResetNode state index = resetNodeRecursive state index"



lemmas run_simps =
  MarkNode.simps checkNode.simps resolveRecursive.simps resolveLoop.simps Resolve_def
  IsResolved_def NewState_def NewBinTreeNode_def stateAt_def nodeAt_def setState_def
  nodeType_defs binTreeNodeTypeHasLeft_def binTreeNodeTypeHasRight_def



lemma resolveLoop_preserves: "preserves state (outcomeState (resolveLoop state i))"
proof (induction state i rule: resolveLoop.induct)
  case (1 state i)
  show ?case
  proof (cases "0 \<le> i")
    case False
    then show ?thesis by (subst resolveLoop.simps) (simp add: preserves_refl)
  next
    case True
    show ?thesis
    proof (cases "stateAt state i")
      case None
      then show ?thesis using True by (subst resolveLoop.simps) (simp add: preserves_refl)
    next
      case (Some v)
      define o1 where
        "o1 = (if v = binTreeStateUnknown then MarkNode state i False else Done state)"
      have pres: "preserves state (outcomeState o1)"
        using MarkNode_preserves [of state i False] by (simp add: o1_def preserves_refl)
      have unf: "resolveLoop state i =
        (case o1 of
           Panicked e st \<Rightarrow> Panicked e st
         | Done state1 \<Rightarrow>
             (case stateAt state1 0 of
                None \<Rightarrow> Panicked IndexOutOfRange state1
              | Some r \<Rightarrow>
                  if r \<noteq> binTreeStateUnknown then Done state1
                  else resolveLoop state1 (i - 1)))"
        using True Some by (subst resolveLoop.simps) (simp add: o1_def)
      show ?thesis
      proof (cases o1)
        case (Panicked e st)
        then show ?thesis using pres by (simp add: unf)
      next
        case (Done state1)
        have "preserves state1 (outcomeState (resolveLoop state1 (i - 1)))"
          if "stateAt state1 0 = Some r" "\<not> r \<noteq> binTreeStateUnknown" for r
          using "1.IH" [OF True Some Done [unfolded o1_def] that] .
        then show ?thesis using pres Done
          by (auto simp: unf split: option.splits intro: preserves_trans)
      qed
    qed
  qed
qed

lemma Resolve_preserves: "preserves state (outcomeState (Resolve state))"
  using resolveLoop_preserves [of state "int (length (data state)) - 1"]
  by (simp add: Resolve_def preserves_refl split: option.splits)

lemma resetNodeRecursive_resets:
  assumes "resetNodeRecursive state index = Some y"
  shows "(\<forall>k. stateAt (outcomeState y) k = stateAt state k
              \<or> stateAt (outcomeState y) k = Some binTreeStateUnknown)
         \<and> (\<forall>s'. y = Done s' \<longrightarrow> stateAt s' index = Some binTreeStateUnknown)"
  using assms
proof (induction state index y rule: resetNodeRecursive.raw_induct [rotated 1, consumes 1])
  case (1 f state index y)
  show ?case
  proof (cases "stateAt state index")
    case None
    then show ?thesis using 1(2) by auto
  next
    case (Some old)
    let ?s0 = "setState state index binTreeStateUnknown"
    from Some have rng: "0 \<le> index \<and> index < int (length (data state))"
      by (auto simp: stateAt_def split: if_splits)
    then have s0: "stateAt ?s0 index = Some binTreeStateUnknown"
      and s0': "\<And>k. stateAt ?s0 k = stateAt state k \<or> stateAt ?s0 k = Some binTreeStateUnknown"
      by (simp_all add: stateAt_setState)
    show ?thesis
    proof (cases "nodeAt (tree state) index")
      case None
      then have "y = Panicked IndexOutOfRange ?s0" using 1(2) Some by simp
      then show ?thesis using s0' by simp
    next
      case (Some defNode)
      from 1(2) \<open>stateAt state index = Some old\<close> Some obtain o1 where
        l: "(if binTreeNodeTypeHasLeft (NodeType defNode)
             then f ?s0 (Left defNode) else Some (Done ?s0)) = Some o1"
        and r: "(case o1 of
                   Panicked e st \<Rightarrow> Some (Panicked e st)
                 | Done state1 \<Rightarrow>
                     if binTreeNodeTypeHasRight (NodeType defNode)
                     then f state1 (Right defNode)
                     else Some (Done state1)) = Some y"
        by (auto simp: bind_eq_Some_conv)
      have p1: "\<And>k. stateAt (outcomeState o1) k = stateAt ?s0 k
                    \<or> stateAt (outcomeState o1) k = Some binTreeStateUnknown"
        using l 1(1) [of ?s0 "Left defNode" o1] by (auto split: if_splits)
      show ?thesis
      proof (cases o1)
        case (Panicked e st)
        then show ?thesis using r p1 s0' by (metis outcome.distinct(1) outcome.simps(6) option.inject)
      next
        case (Done state1)
        have p2: "\<And>k. stateAt (outcomeState y) k = stateAt state1 k
                    \<or> stateAt (outcomeState y) k = Some binTreeStateUnknown"
          using r Done 1(1) [of state1 "Right defNode" y] by (auto split: if_splits)
        have "stateAt state1 index = Some binTreeStateUnknown"
          using p1 [of index] s0 Done by auto
        then have "stateAt (outcomeState y) index = Some binTreeStateUnknown"
          using p2 [of index] by auto
        moreover have "stateAt (outcomeState y) k = stateAt state k
                    \<or> stateAt (outcomeState y) k = Some binTreeStateUnknown" for k
          using p1 [of k] p2 [of k] s0' [of k] Done by auto
        ultimately show ?thesis by auto
      qed
    qed
  qed
qed

subsection \<open>Validation\<close>

text \<open>
  \<open>validateItem\<close> returns \<open>(int, error)\<close>: the position after the subtree, or an
  error made by \<open>errors.New\<close>; the read \<open>tree.data[item]\<close> can panic. The second
  recursive call starts at the position the first one returned.
\<close>

datatype validation = Position int | Malformed string | ValidationPanic panic

function validateItem :: "binTree \<Rightarrow> int \<Rightarrow> int \<Rightarrow> validation" where
  "validateItem t item parent =
     (case nodeAt t item of
        None \<Rightarrow> ValidationPanic IndexOutOfRange
      | Some idata \<Rightarrow>
          if ParentIdx idata \<noteq> parent then Malformed ''parent index doesnt match child''
          else if NodeType idata = nodeTypeLeaf then Position (item + 1)
          else if NodeType idata \<noteq> nodeTypeAnd \<and> NodeType idata \<noteq> nodeTypeOr
                  \<and> NodeType idata \<noteq> nodeTypeNot \<and> NodeType idata \<noteq> nodeTypeNeor
                  \<and> NodeType idata \<noteq> nodeTypeLoop
          then Malformed ''unexpected node type''
          else if \<not> binTreeNodeTypeHasLeft (NodeType idata) \<and> Left idata \<noteq> 0
          then Malformed ''expected left to be undefined''
          else if binTreeNodeTypeHasLeft (NodeType idata)
                  \<and> (Left idata \<le> 0 \<or> Left idata \<ge> int (length t))
          then Malformed ''expected left to be defined, and inside the tree''
          else if \<not> binTreeNodeTypeHasRight (NodeType idata) \<and> Right idata \<noteq> 0
          then Malformed ''expected right to be undefined''
          else if binTreeNodeTypeHasRight (NodeType idata)
                  \<and> (Right idata \<le> 0 \<or> Right idata \<ge> int (length t))
          then Malformed ''expected right to be defined, and inside the tree''
          else
            (case (if binTreeNodeTypeHasLeft (NodeType idata)
                   then validateItem t (item + 1) item else Position (item + 1)) of
               Malformed err \<Rightarrow> Malformed err
             | ValidationPanic p \<Rightarrow> ValidationPanic p
             | Position pos \<Rightarrow>
                 if binTreeNodeTypeHasRight (NodeType idata)
                 then validateItem t pos item else Position pos))"
  by pat_completeness auto


lemma validateItem_dom_advances:
  assumes "validateItem_dom (t, item, parent)"
  shows "validateItem t item parent = Position pos \<Longrightarrow> item < pos"
  using assms
proof (induct arbitrary: pos rule: validateItem.pinduct)
  case (1 t item parent)
  from "1.prems" obtain idata where idata: "nodeAt t item = Some idata"
    by (subst (asm) validateItem.psimps [OF 1(1)]) (auto split: option.splits)
  show ?case
  proof (cases "NodeType idata = nodeTypeLeaf")
    case True
    then show ?thesis using "1.prems" idata
      by (subst (asm) validateItem.psimps [OF 1(1)]) (auto split: if_splits)
  next
    case False
    then have hl: "binTreeNodeTypeHasLeft (NodeType idata)"
      by (simp add: binTreeNodeTypeHasLeft_def)
    from "1.prems" idata False hl obtain p1 where
      c: "ParentIdx idata = parent"
        "\<not> (NodeType idata \<noteq> nodeTypeAnd \<and> NodeType idata \<noteq> nodeTypeOr
            \<and> NodeType idata \<noteq> nodeTypeNot \<and> NodeType idata \<noteq> nodeTypeNeor
            \<and> NodeType idata \<noteq> nodeTypeLoop)"
        "\<not> (\<not> binTreeNodeTypeHasLeft (NodeType idata) \<and> Left idata \<noteq> 0)"
        "\<not> (binTreeNodeTypeHasLeft (NodeType idata)
            \<and> (Left idata \<le> 0 \<or> Left idata \<ge> int (length t)))"
        "\<not> (\<not> binTreeNodeTypeHasRight (NodeType idata) \<and> Right idata \<noteq> 0)"
        "\<not> (binTreeNodeTypeHasRight (NodeType idata)
            \<and> (Right idata \<le> 0 \<or> Right idata \<ge> int (length t)))"
      and l: "validateItem t (item + 1) item = Position p1"
      and r: "if binTreeNodeTypeHasRight (NodeType idata)
              then validateItem t p1 item = Position pos else pos = p1"
      by (subst (asm) validateItem.psimps [OF 1(1)])
         (auto split: if_splits validation.splits)
    have c1: "\<not> ParentIdx idata \<noteq> parent" using c(1) by simp
    have p1: "item + 1 < p1"
      using "1.hyps"(2) [OF idata c1 False c(2-6) hl l] .
    show ?thesis
    proof (cases "binTreeNodeTypeHasRight (NodeType idata)")
      case True
      have l': "(if binTreeNodeTypeHasLeft (NodeType idata)
                 then validateItem t (item + 1) item else Position (item + 1)) = Position p1"
        using hl l by simp
      have "p1 < pos"
        using "1.hyps"(3) [OF idata c1 False c(2-6) l' True] r True by simp
      with p1 show ?thesis by simp
    next
      case False
      with r p1 show ?thesis by simp
    qed
  qed
qed

lemma validateItem_total: "All validateItem_dom"
proof (relation "measure (\<lambda>(t, item, parent). nat (int (length t) - item))", goal_cases)
  case 1
  show ?case by simp
next
  case (2 t item parent idata)
  then show ?case by (auto simp: nodeAt_def split: if_splits)
next
  case (3 t item parent idata pos)
  then have "item + 1 < pos"
    using validateItem_dom_advances [of t "item + 1" item pos]
    by (simp add: binTreeNodeTypeHasLeft_def)
  then show ?case using 3(1) by (auto simp: nodeAt_def split: if_splits)
qed

termination validateItem
  by (rule validateItem_total)

declare validateItem.simps [simp del]

datatype verdict = Valid | Invalid string | ValidatePanics panic

definition Validate :: "binTree \<Rightarrow> verdict" where
  "Validate t =
     (case validateItem t 0 0 of
        ValidationPanic p \<Rightarrow> ValidatePanics p
      | Malformed err \<Rightarrow> Invalid err
      | Position pos \<Rightarrow>
          if pos \<noteq> int (length t) then Invalid ''tree does not encompase all nodes''
          else Valid)"


lemma validateItem_advances: "validateItem t item parent = Position pos \<Longrightarrow> item < pos"
  using validateItem_total validateItem_dom_advances [of t item parent pos] by simp

lemma validateItem_Position_cases [consumes 1, case_names leaf unary binary]:
  assumes "validateItem t item parent = Position pos"
  obtains
    (leaf) idata where "nodeAt t item = Some idata" "ParentIdx idata = parent"
      "NodeType idata = nodeTypeLeaf" "pos = item + 1"
  | (unary) idata where "nodeAt t item = Some idata" "ParentIdx idata = parent"
      "NodeType idata = nodeTypeNot \<or> NodeType idata = nodeTypeLoop"
      "0 < Left idata" "Left idata < int (length t)" "Right idata = 0"
      "validateItem t (item + 1) item = Position pos"
  | (binary) idata p1 where "nodeAt t item = Some idata" "ParentIdx idata = parent"
      "NodeType idata = nodeTypeAnd \<or> NodeType idata = nodeTypeOr
        \<or> NodeType idata = nodeTypeNeor"
      "0 < Left idata" "Left idata < int (length t)"
      "0 < Right idata" "Right idata < int (length t)"
      "validateItem t (item + 1) item = Position p1"
      "validateItem t p1 item = Position pos"
proof -
  note body = assms [unfolded validateItem.simps [of t item parent]]
  from body obtain idata where idata: "nodeAt t item = Some idata"
    by (auto split: option.splits)
  have ty: "NodeType idata = nodeTypeLeaf
     \<or> (NodeType idata = nodeTypeNot \<or> NodeType idata = nodeTypeLoop)
     \<or> (NodeType idata = nodeTypeAnd \<or> NodeType idata = nodeTypeOr
        \<or> NodeType idata = nodeTypeNeor)"
    using body idata by (auto split: if_splits)
  then consider (a) "NodeType idata = nodeTypeLeaf"
    | (b) "NodeType idata = nodeTypeNot \<or> NodeType idata = nodeTypeLoop"
    | (c) "NodeType idata = nodeTypeAnd \<or> NodeType idata = nodeTypeOr
        \<or> NodeType idata = nodeTypeNeor"
    by blast
  then show thesis
  proof cases
    case a
    then show ?thesis using body idata
      by (intro leaf [of idata]) (auto split: if_splits)
  next
    case b
    then have hr: "\<not> binTreeNodeTypeHasRight (NodeType idata)"
      and hl: "binTreeNodeTypeHasLeft (NodeType idata)"
      and nl: "NodeType idata \<noteq> nodeTypeLeaf"
      by (auto simp: nodeType_defs binTreeNodeTypeHasLeft_def binTreeNodeTypeHasRight_def)
    show ?thesis using body idata b hr hl nl
      by (intro unary [of idata]) (auto split: if_splits validation.splits)
  next
    case c
    then have hr: "binTreeNodeTypeHasRight (NodeType idata)"
      and hl: "binTreeNodeTypeHasLeft (NodeType idata)"
      and nl: "NodeType idata \<noteq> nodeTypeLeaf"
      by (auto simp: nodeType_defs binTreeNodeTypeHasLeft_def binTreeNodeTypeHasRight_def)
    from body idata hr hl nl obtain p1 where
      "validateItem t (item + 1) item = Position p1" "validateItem t p1 item = Position pos"
      by (auto split: if_splits validation.splits)
    moreover have "ParentIdx idata = parent" "0 < Left idata" "Left idata < int (length t)"
      "0 < Right idata" "Right idata < int (length t)"
      using body idata hr hl nl
      by (auto split: if_splits validation.splits)
    ultimately show ?thesis using idata c by (intro binary [of idata p1])
  qed
qed

text \<open>What the walk has checked of the node at an index once it has passed it.\<close>

definition nodeChecked :: "binTree \<Rightarrow> int \<Rightarrow> int \<Rightarrow> int \<Rightarrow> bool" where
  "nodeChecked t item parent k \<longleftrightarrow>
     (\<exists>n. nodeAt t k = Some n
        \<and> (NodeType n = nodeTypeLeaf \<or> NodeType n = nodeTypeOr \<or> NodeType n = nodeTypeAnd
           \<or> NodeType n = nodeTypeNot \<or> NodeType n = nodeTypeNeor
           \<or> NodeType n = nodeTypeLoop)
        \<and> (\<forall>c. isChild n c \<longrightarrow> 0 < c \<and> c < int (length t))
        \<and> (if k = item then ParentIdx n = parent
            else item \<le> ParentIdx n \<and> ParentIdx n < k))"

lemma validateItem_checks:
  "validateItem t item parent = Position pos \<Longrightarrow>
     pos \<le> int (length t) \<and> (\<forall>k. item \<le> k \<and> k < pos \<longrightarrow> nodeChecked t item parent k)"
proof (induction "nat (int (length t) - item)" arbitrary: item parent pos rule: less_induct)
  case (less item parent pos)
  from less.prems show ?case
  proof (cases rule: validateItem_Position_cases)
    case (leaf idata)
    then show ?thesis
      by (auto simp: nodeChecked_def isChild_def binTreeNodeTypeHasLeft_def
          binTreeNodeTypeHasRight_def nodeAt_def split: if_splits)
  next
    case (unary idata)
    from unary(1) have lt: "item < int (length t)" by (auto simp: nodeAt_def split: if_splits)
    have ih: "pos \<le> int (length t)
        \<and> (\<forall>k. item + 1 \<le> k \<and> k < pos \<longrightarrow> nodeChecked t (item + 1) item k)"
      using lt by (intro less.hyps [OF _ unary(7)]) simp
    have self: "nodeChecked t item parent item"
      using unary by (auto simp: nodeChecked_def isChild_def nodeType_defs
          binTreeNodeTypeHasLeft_def binTreeNodeTypeHasRight_def)
    have "nodeChecked t item parent k" if "item \<le> k" "k < pos" for k
    proof (cases "k = item")
      case True
      then show ?thesis using self by simp
    next
      case False
      then have "nodeChecked t (item + 1) item k" using that ih by simp
      then show ?thesis using False that by (auto simp: nodeChecked_def split: if_splits)
    qed
    then show ?thesis using ih by simp
  next
    case (binary idata p1)
    from binary(1) have lt: "item < int (length t)" by (auto simp: nodeAt_def split: if_splits)
    have adv: "item + 1 < p1" using binary(8) by (rule validateItem_advances)
    have ih1: "p1 \<le> int (length t)
        \<and> (\<forall>k. item + 1 \<le> k \<and> k < p1 \<longrightarrow> nodeChecked t (item + 1) item k)"
      using lt by (intro less.hyps [OF _ binary(8)]) simp
    have ih2: "pos \<le> int (length t)
        \<and> (\<forall>k. p1 \<le> k \<and> k < pos \<longrightarrow> nodeChecked t p1 item k)"
      using lt adv by (intro less.hyps [OF _ binary(9)]) simp
    have self: "nodeChecked t item parent item"
      using binary by (auto simp: nodeChecked_def isChild_def nodeType_defs
          binTreeNodeTypeHasLeft_def binTreeNodeTypeHasRight_def)
    have "nodeChecked t item parent k" if k1: "item \<le> k" and k2: "k < pos" for k
    proof -
      consider "k = item" | "item + 1 \<le> k \<and> k < p1" | "p1 \<le> k"
        using k1 by atomize_elim auto
      then show ?thesis
      proof cases
        case 1
        then show ?thesis using self by simp
      next
        case 2
        then have "nodeChecked t (item + 1) item k" using ih1 by simp
        then show ?thesis using 2 by (auto simp: nodeChecked_def split: if_splits)
      next
        case 3
        then have "nodeChecked t p1 item k" using ih2 k2 by simp
        then show ?thesis using 3 adv by (auto simp: nodeChecked_def split: if_splits)
      qed
    qed
    then show ?thesis using ih2 by simp
  qed
qed

lemma Validate_checked:
  assumes "Validate t = Valid" and "0 \<le> k" and "k < int (length t)"
  shows "nodeChecked t 0 0 k"
proof -
  from assms(1) have "validateItem t 0 0 = Position (int (length t))"
    by (auto simp: Validate_def split: validation.splits if_splits)
  from validateItem_checks [OF this] assms(2,3) show ?thesis by simp
qed


section \<open>Properties of the evaluation state\<close>

text \<open>
  A state in the middle of a loop scope: \<open>not (not leaf)\<close>, stalled at node 1, the leaf
  marked \<open>false\<close> and node 1 resolved to \<open>true\<close> from it.
\<close>

definition stalledState :: binTreeState where
  "stalledState =
     \<lparr>tree = [NewBinTreeNode nodeTypeNot 0 1 0, NewBinTreeNode nodeTypeNot 0 2 0,
              NewBinTreeNode nodeTypeLeaf 1 0 0],
      data = [binTreeStateUnknown, binTreeStateTrue, binTreeStateFalse],
      stallIndex = 1\<rparr>"

text \<open>
  C7: \<open>MarkNode\<close> on an index whose state is \<open>True\<close>, \<open>False\<close> or \<open>Resolved\<close> panics
  with "cannot resolve same state node twice", and the state is as it was.
\<close>

theorem MarkNode_rejects_resolved:
  "stateAt state i = Some x \<Longrightarrow> x \<noteq> binTreeStateUnknown \<Longrightarrow>
     MarkNode state i v = Panicked CannotResolveTwice state"
  by (simp add: MarkNode.simps)

theorem MarkNode_rejects_resolved_witness:
  "stateAt stalledState 1 = Some binTreeStateTrue
   \<and> MarkNode stalledState 1 False = Panicked CannotResolveTwice stalledState"
proof -
  have h: "stateAt stalledState 1 = Some binTreeStateTrue"
    by (simp add: stalledState_def stateAt_def)
  from MarkNode_rejects_resolved [OF h, of False] h show ?thesis by simp
qed

text \<open>
  C5: \<open>Resolve\<close> is the iteration from the last index down to 0 that marks every node
  still \<open>Unknown\<close> as \<open>false\<close> and stops once the root is no longer \<open>Unknown\<close>; and
  when \<open>Resolve\<close> returns, the root is not \<open>Unknown\<close>.
\<close>

theorem Resolve_iterates_and_resolves_root:
  "(data state \<noteq> [] \<longrightarrow> Resolve state = Resolve_spec state)
   \<and> (\<forall>s'. Resolve state = Done s' \<longrightarrow>
         (\<exists>r. stateAt s' 0 = Some r \<and> r \<noteq> binTreeStateUnknown))"
  using Resolve_refines [of state] Resolve_root [of state] by blast

theorem Resolve_iterates_and_resolves_root_witness:
  "data (NewState (tree stalledState)) \<noteq> []
   \<and> Resolve (NewState (tree stalledState)) = Resolve_spec (NewState (tree stalledState))
   \<and> Resolve (NewState (tree stalledState))
       = Done ((NewState (tree stalledState))\<lparr>data :=
           [binTreeStateFalse, binTreeStateTrue, binTreeStateFalse]\<rparr>)
   \<and> (\<exists>r. stateAt ((NewState (tree stalledState))\<lparr>data :=
           [binTreeStateFalse, binTreeStateTrue, binTreeStateFalse]\<rparr>) 0 = Some r
          \<and> r \<noteq> binTreeStateUnknown)"
proof -
  have d: "data (NewState (tree stalledState)) \<noteq> []"
    by (simp add: stalledState_def NewState_def)
  have r: "Resolve (NewState (tree stalledState))
       = Done ((NewState (tree stalledState))\<lparr>data :=
           [binTreeStateFalse, binTreeStateTrue, binTreeStateFalse]\<rparr>)"
    by (simp add: stalledState_def run_simps)
  from Resolve_iterates_and_resolves_root [of "NewState (tree stalledState)"] d r
  show ?thesis by blast
qed

text \<open>
  C6 (idempotence): when \<open>Resolve\<close> has returned, a second \<open>Resolve\<close> returns at once
  with the same state: the same tree, the same array and the same stall index.
\<close>

theorem Resolve_idempotent:
  "Resolve state = Done s' \<Longrightarrow> Resolve s' = Done s'"
  using Resolve_root [of state s'] by (auto simp: Resolve_def IsResolved_def)

theorem Resolve_idempotent_witness:
  "Resolve (NewState (tree stalledState))
       = Done ((NewState (tree stalledState))\<lparr>data :=
           [binTreeStateFalse, binTreeStateTrue, binTreeStateFalse]\<rparr>)
   \<and> Resolve ((NewState (tree stalledState))\<lparr>data :=
           [binTreeStateFalse, binTreeStateTrue, binTreeStateFalse]\<rparr>)
       = Done ((NewState (tree stalledState))\<lparr>data :=
           [binTreeStateFalse, binTreeStateTrue, binTreeStateFalse]\<rparr>)"
proof -
  have r: "Resolve (NewState (tree stalledState))
       = Done ((NewState (tree stalledState))\<lparr>data :=
           [binTreeStateFalse, binTreeStateTrue, binTreeStateFalse]\<rparr>)"
    by (simp add: stalledState_def run_simps)
  from Resolve_idempotent [OF r] r show ?thesis by simp
qed


subsection \<open>Stall discipline and validation\<close>

text \<open>
  \<open>atOrBelow t s i\<close>: node \<open>s\<close> is node \<open>i\<close> or is on the chain of parent indices
  that starts at \<open>i\<close>.
\<close>

inductive atOrBelow :: "binTree \<Rightarrow> int \<Rightarrow> int \<Rightarrow> bool" for t :: binTree and s :: int where
  self: "atOrBelow t s s"
| up: "nodeAt t i = Some n \<Longrightarrow> atOrBelow t s (ParentIdx n) \<Longrightarrow> atOrBelow t s i"

lemma Validate_child_range:
  assumes "Validate t = Valid" and "nodeAt t k = Some n" and "isChild n c"
  shows "0 < c \<and> c < int (length t)"
proof -
  from assms(2) have "0 \<le> k" "k < int (length t)"
    by (auto simp: nodeAt_def split: if_splits)
  from Validate_checked [OF assms(1) this] assms(2,3) show ?thesis
    by (auto simp: nodeChecked_def)
qed

lemma Validate_parent:
  assumes "Validate t = Valid" and "nodeAt t k = Some n"
  shows "if k = 0 then ParentIdx n = 0 else 0 \<le> ParentIdx n \<and> ParentIdx n < k"
proof -
  from assms(2) have "0 \<le> k" "k < int (length t)"
    by (auto simp: nodeAt_def split: if_splits)
  from Validate_checked [OF assms(1) this] assms(2) show ?thesis
    by (auto simp: nodeChecked_def)
qed

lemma atOrBelow_root:
  assumes "Validate t = Valid" and "atOrBelow t s i" and "i = 0"
  shows "s = 0"
  using assms(2,3)
proof (induction rule: atOrBelow.induct)
  case self
  then show ?case by simp
next
  case (up i n)
  then show ?case using Validate_parent [OF assms(1), of i n] by simp
qed

lemma resolveRecursive_root:
  assumes "Validate (tree state) = Valid"
  shows "stateAt (outcomeState (resolveRecursive state index)) 0 = stateAt state 0"
proof -
  have "tree (outcomeState (resolveRecursive state index)) = tree state
        \<and> (Validate (tree state) = Valid \<longrightarrow>
             stateAt (outcomeState (resolveRecursive state index)) 0 = stateAt state 0)"
  proof (rule resolveRecursive_rel [where Q = "\<lambda>a b. tree b = tree a
        \<and> (Validate (tree a) = Valid \<longrightarrow> stateAt b 0 = stateAt a 0)"], goal_cases)
    case (3 s n defNode c)
    then show ?case using Validate_child_range [of "tree s" n defNode c]
      by (auto simp: stateAt_setState)
  qed auto
  with assms show ?thesis by simp
qed

definition notNotLeaf :: binTree where
  "notNotLeaf =
     [NewBinTreeNode nodeTypeNot 0 1 0, NewBinTreeNode nodeTypeNot 0 2 0,
      NewBinTreeNode nodeTypeLeaf 1 0 0]"

lemmas validate_simps =
  Validate_def validateItem.simps nodeAt_def NewBinTreeNode_def nodeType_defs
  binTreeNodeTypeHasLeft_def binTreeNodeTypeHasRight_def

lemma Validate_notNotLeaf: "Validate notNotLeaf = Valid"
  by (simp add: notNotLeaf_def validate_simps)

text \<open>
  C4 (stall discipline), amended: over a tree that \<open>Validate\<close> accepts, with the stall
  index at a node other than the root, \<open>MarkNode\<close> on a node at or below the stalled node
  (the stalled node is on its chain of parents) leaves an \<open>Unknown\<close> root \<open>Unknown\<close>,
  whether the call returns or panics.
\<close>

theorem stalled_mark_keeps_root_unknown:
  "Validate (tree state) = Valid \<Longrightarrow> stallIndex state \<noteq> 0 \<Longrightarrow>
   atOrBelow (tree state) (stallIndex state) i \<Longrightarrow>
   stateAt state 0 = Some binTreeStateUnknown \<Longrightarrow>
   stateAt (outcomeState (MarkNode state i v)) 0 = Some binTreeStateUnknown"
proof (induction state i v rule: MarkNode_up_induct)
  case (step state index val)
  have i0: "index \<noteq> 0"
    using atOrBelow_root [OF step.prems(1,3)] step.prems(2) by auto
  show ?case
  proof (cases "stateAt state index = Some binTreeStateUnknown")
    case False
    then show ?thesis using step.prems(4)
      by (subst MarkNode_unfold) (auto split: option.splits)
  next
    case True
    let ?s1 = "setState state index (boolState val)"
    have r1: "stateAt ?s1 0 = Some binTreeStateUnknown"
      using i0 step.prems(4) by (simp add: stateAt_setState)
    have p: "preserves ?s1 (outcomeState (resolveRecursive ?s1 index))"
      by (rule resolveRecursive_preserves)
    have r2: "stateAt (outcomeState (resolveRecursive ?s1 index)) 0 = Some binTreeStateUnknown"
      using resolveRecursive_root [of ?s1 index] step.prems(1) r1 by simp
    show ?thesis
    proof (cases "resolveRecursive ?s1 index")
      case (Panicked e st)
      then show ?thesis using True r2 by (subst MarkNode_unfold) auto
    next
      case (Done state2)
      have t2: "tree state2 = tree state" and st2: "stallIndex state2 = stallIndex state"
        using p Done by (simp_all add: preserves_def)
      have root2: "stateAt state2 0 = Some binTreeStateUnknown" using r2 Done by simp
      have "stateAt (outcomeState (MarkNode state2 (ParentIdx defNode) v)) 0
            = Some binTreeStateUnknown"
        if a: "index \<noteq> stallIndex state2" "nodeAt (tree state2) index = Some defNode"
          "nodeAt (tree state2) (ParentIdx defNode) = Some pNode"
          "checkDecision state2 pNode = MarkAs v" for defNode pNode v
      proof -
        from step.prems(3) a(1,2) have "atOrBelow (tree state) (stallIndex state) (ParentIdx defNode)"
          by (cases rule: atOrBelow.cases) (auto simp: t2 st2)
        then show ?thesis
          using step.IH [OF True Done i0 a] step.prems(1,2) root2 by (simp add: t2 st2)
      qed
      then show ?thesis using True Done root2
        by (subst MarkNode_unfold) (auto split: option.splits decision.splits)
    qed
  qed
qed


theorem stalled_mark_keeps_root_unknown_witness:
  "Validate (tree (fst (SetStallIndex (NewState notNotLeaf) 1))) = Valid
   \<and> stallIndex (fst (SetStallIndex (NewState notNotLeaf) 1)) \<noteq> 0
   \<and> atOrBelow (tree (fst (SetStallIndex (NewState notNotLeaf) 1)))
        (stallIndex (fst (SetStallIndex (NewState notNotLeaf) 1))) 2
   \<and> stateAt (fst (SetStallIndex (NewState notNotLeaf) 1)) 0 = Some binTreeStateUnknown
   \<and> MarkNode (fst (SetStallIndex (NewState notNotLeaf) 1)) 2 False
       = Done ((NewState notNotLeaf)\<lparr>data :=
           [binTreeStateUnknown, binTreeStateTrue, binTreeStateFalse], stallIndex := 1\<rparr>)
   \<and> stateAt (outcomeState (MarkNode (fst (SetStallIndex (NewState notNotLeaf) 1)) 2 False)) 0
       = Some binTreeStateUnknown"
proof -
  let ?s = "fst (SetStallIndex (NewState notNotLeaf) 1)"
  have t: "tree ?s = notNotLeaf" and st: "stallIndex ?s = 1"
    by (simp_all add: SetStallIndex_def NewState_def)
  have h1: "Validate (tree ?s) = Valid" by (simp only: t Validate_notNotLeaf)
  have h2: "stallIndex ?s \<noteq> 0" by (simp add: st)
  have "nodeAt notNotLeaf 2 = Some (NewBinTreeNode nodeTypeLeaf 1 0 0)"
    by (simp add: notNotLeaf_def nodeAt_def)
  then have "atOrBelow notNotLeaf 1 2"
    by (rule atOrBelow.up) (simp add: NewBinTreeNode_def atOrBelow.self)
  then have h3: "atOrBelow (tree ?s) (stallIndex ?s) 2" by (simp only: t st)
  have h4: "stateAt ?s 0 = Some binTreeStateUnknown"
    by (simp add: SetStallIndex_def NewState_def stateAt_def notNotLeaf_def)
  have run: "MarkNode ?s 2 False
       = Done ((NewState notNotLeaf)\<lparr>data :=
           [binTreeStateUnknown, binTreeStateTrue, binTreeStateFalse], stallIndex := 1\<rparr>)"
    by (simp add: SetStallIndex_def notNotLeaf_def run_simps)
  from stalled_mark_keeps_root_unknown [OF h1 h2 h3 h4, of False] h1 h2 h3 h4 run
  show ?thesis by simp
qed

text \<open>
  With the stall index at the root, which is its initial value, the same mark goes all
  the way up: the root is resolved.
\<close>

theorem unstalled_mark_resolves_root:
  "Validate (tree (NewState notNotLeaf)) = Valid
   \<and> atOrBelow (tree (NewState notNotLeaf)) (stallIndex (NewState notNotLeaf)) 2
   \<and> stateAt (NewState notNotLeaf) 0 = Some binTreeStateUnknown
   \<and> stateAt (outcomeState (MarkNode (NewState notNotLeaf) 2 False)) 0
       = Some binTreeStateFalse"
proof -
  have n2: "nodeAt notNotLeaf 2 = Some (NewBinTreeNode nodeTypeLeaf 1 0 0)"
    and n1: "nodeAt notNotLeaf 1 = Some (NewBinTreeNode nodeTypeNot 0 2 0)"
    by (simp_all add: notNotLeaf_def nodeAt_def)
  have "atOrBelow notNotLeaf 0 1"
    using n1 by (rule atOrBelow.up) (simp add: NewBinTreeNode_def atOrBelow.self)
  then have "atOrBelow notNotLeaf 0 (ParentIdx (NewBinTreeNode nodeTypeLeaf 1 0 0))"
    by (simp add: NewBinTreeNode_def)
  with n2 have "atOrBelow notNotLeaf 0 2"
    by (rule atOrBelow.up)
  then have "atOrBelow (tree (NewState notNotLeaf)) (stallIndex (NewState notNotLeaf)) 2"
    by (simp add: NewState_def)
  moreover have "Validate (tree (NewState notNotLeaf)) = Valid"
    by (simp add: NewState_def Validate_notNotLeaf)
  moreover have "stateAt (NewState notNotLeaf) 0 = Some binTreeStateUnknown"
    by (simp add: NewState_def stateAt_def notNotLeaf_def)
  moreover have "stateAt (outcomeState (MarkNode (NewState notNotLeaf) 2 False)) 0
       = Some binTreeStateFalse"
    by (simp add: notNotLeaf_def run_simps)
  ultimately show ?thesis by blast
qed

text \<open>
  C8: \<open>validateItem\<close> returns for a leaf before it looks at the child pointers, so a
  tree whose leaf has both children set (here to an index outside the array) is
  accepted, against the comment "Leafs should not have any children" and the checks
  "Left must not be set", "Right must not be set" that follow the return.
\<close>

theorem Validate_accepts_leaf_with_children:
  "Validate [NewBinTreeNode nodeTypeLeaf 0 1 1] = Valid"
  by (simp add: validate_simps)

text \<open>
  The walk goes by position and compares the child pointers only with the bounds of
  the array: a tree whose two links both point at the first child is accepted too.
\<close>

lemma Validate_accepts_misplaced_link:
  "Validate [NewBinTreeNode nodeTypeOr 0 1 1, NewBinTreeNode nodeTypeLeaf 0 0 0,
             NewBinTreeNode nodeTypeLeaf 0 0 0] = Valid"
  by (simp add: validate_simps)


subsection \<open>What the descendant walk reaches\<close>

text \<open>
  \<open>link t a c\<close>: node \<open>a\<close> has \<open>c\<close> as its left or right link, as \<open>resolveRecursive\<close>
  reads them. \<open>reachesThrough t W a j\<close>: a path of links leads from \<open>a\<close> to \<open>j\<close>, and every
  node on it after \<open>a\<close> is in \<open>W\<close>.
\<close>

definition unknownNodes :: "binTreeState \<Rightarrow> int set" where
  "unknownNodes state = {c. stateAt state c = Some binTreeStateUnknown}"

definition link :: "binTree \<Rightarrow> int \<Rightarrow> int \<Rightarrow> bool" where
  "link t a c \<longleftrightarrow> (\<exists>n. nodeAt t a = Some n \<and> isChild n c)"

inductive reachesThrough :: "binTree \<Rightarrow> int set \<Rightarrow> int \<Rightarrow> int \<Rightarrow> bool"
  for t :: binTree and W :: "int set" and a :: int where
  direct: "link t a c \<Longrightarrow> c \<in> W \<Longrightarrow> reachesThrough t W a c"
| further: "reachesThrough t W a m \<Longrightarrow> link t m c \<Longrightarrow> c \<in> W \<Longrightarrow> reachesThrough t W a c"

lemma reachesThrough_in: "reachesThrough t W a j \<Longrightarrow> j \<in> W"
  by (induction rule: reachesThrough.induct) auto

lemma reachesThrough_mono: "reachesThrough t W a j \<Longrightarrow> W \<subseteq> W' \<Longrightarrow> reachesThrough t W' a j"
  by (induction rule: reachesThrough.induct) (auto intro: reachesThrough.intros)

lemma reachesThrough_trans:
  "reachesThrough t W c j \<Longrightarrow> reachesThrough t W a c \<Longrightarrow> reachesThrough t W a j"
  by (induction rule: reachesThrough.induct) (auto intro: reachesThrough.intros)

lemma reachesThrough_unfold:
  "reachesThrough t W a j \<longleftrightarrow>
     (\<exists>c. link t a c \<and> c \<in> W \<and> (j = c \<or> reachesThrough t W c j))"
proof
  assume "reachesThrough t W a j"
  then show "\<exists>c. link t a c \<and> c \<in> W \<and> (j = c \<or> reachesThrough t W c j)"
  proof (induction rule: reachesThrough.induct)
    case (direct c)
    then show ?case by blast
  next
    case (further m c)
    then show ?case by (blast intro: reachesThrough.intros)
  qed
next
  assume "\<exists>c. link t a c \<and> c \<in> W \<and> (j = c \<or> reachesThrough t W c j)"
  then show "reachesThrough t W a j"
    by (blast intro: reachesThrough.direct reachesThrough_trans)
qed

text \<open>A path that comes back to its start can be cut there.\<close>

lemma reachesThrough_cut:
  "reachesThrough t W a j \<Longrightarrow> j = a \<or> reachesThrough t (W - {a}) a j"
proof (induction rule: reachesThrough.induct)
  case (direct c)
  then show ?case by (auto intro: reachesThrough.direct)
next
  case (further m c)
  then show ?case by (auto intro: reachesThrough.intros)
qed

text \<open>A path either enters a set that is closed under the links into \<open>W\<close>, or avoids it.\<close>

lemma reachesThrough_avoid:
  assumes "reachesThrough t W a j"
    and closed: "\<And>m c. m \<in> A \<Longrightarrow> link t m c \<Longrightarrow> c \<in> W \<Longrightarrow> c \<in> A"
  shows "j \<in> A \<or> reachesThrough t (W - A) a j"
  using assms(1)
proof (induction rule: reachesThrough.induct)
  case (direct c)
  then show ?case by (auto intro: reachesThrough.direct)
next
  case (further m c)
  then show ?case using closed by (auto intro: reachesThrough.intros)
qed


definition resolveChild :: "binTreeState \<Rightarrow> bool \<Rightarrow> int \<Rightarrow> outcome" where
  "resolveChild state has c =
     (if has then
        (case stateAt state c of
           None \<Rightarrow> Panicked IndexOutOfRange state
         | Some v \<Rightarrow>
             if v = binTreeStateUnknown
             then resolveRecursive (setState state c binTreeStateResolved) c
             else Done state)
      else Done state)"

lemma resolveRecursive_unfold:
  "resolveRecursive state index =
     (case nodeAt (tree state) index of
        None \<Rightarrow> Panicked IndexOutOfRange state
      | Some defNode \<Rightarrow>
          (case resolveChild state (binTreeNodeTypeHasLeft (NodeType defNode)) (Left defNode) of
             Panicked e st \<Rightarrow> Panicked e st
           | Done state1 \<Rightarrow>
               resolveChild state1 (binTreeNodeTypeHasRight (NodeType defNode))
                 (Right defNode)))"
  unfolding resolveChild_def by (rule resolveRecursive.simps)

text \<open>\<open>resolvesTo state R s'\<close>: \<open>s'\<close> is \<open>state\<close> with the entries in \<open>R\<close> set to \<open>Resolved\<close>.\<close>

definition resolvesTo :: "binTreeState \<Rightarrow> int set \<Rightarrow> binTreeState \<Rightarrow> bool" where
  "resolvesTo state R s' \<longleftrightarrow>
     tree s' = tree state \<and> stallIndex s' = stallIndex state
     \<and> length (data s') = length (data state)
     \<and> (\<forall>j. stateAt s' j = (if j \<in> R then Some binTreeStateResolved else stateAt state j))"

text \<open>The array has an entry for each node, and every link points into it.\<close>

definition stateFits :: "binTreeState \<Rightarrow> bool" where
  "stateFits state \<longleftrightarrow>
     length (data state) = length (tree state)
     \<and> (\<forall>k c. link (tree state) k c \<longrightarrow> 0 \<le> c \<and> c < int (length (tree state)))"

lemma resolvesTo_empty: "resolvesTo state {} state"
  by (simp add: resolvesTo_def)

lemma resolvesTo_union:
  "resolvesTo state A s1 \<Longrightarrow> resolvesTo s1 B s2 \<Longrightarrow> resolvesTo state (A \<union> B) s2"
  by (auto simp: resolvesTo_def)

lemma resolvesTo_unknownNodes:
  "resolvesTo state A s1 \<Longrightarrow> unknownNodes s1 = unknownNodes state - A"
  by (auto simp: resolvesTo_def unknownNodes_def)

lemma resolvesTo_fits: "resolvesTo state A s1 \<Longrightarrow> stateFits state \<Longrightarrow> stateFits s1"
  by (auto simp: resolvesTo_def stateFits_def)

lemma resolvesTo_count:
  "resolvesTo state A s1 \<Longrightarrow> unknownCount s1 \<le> unknownCount state"
proof -
  assume r: "resolvesTo state A s1"
  have "list_all2 (\<lambda>x y. y = binTreeStateUnknown \<longrightarrow> x = binTreeStateUnknown)
          (data state) (data s1)"
  proof (rule list_all2_all_nthI)
    show "length (data state) = length (data s1)" using r by (simp add: resolvesTo_def)
  next
    fix n assume n: "n < length (data state)"
    from r have "stateAt s1 (int n) = (if int n \<in> A then Some binTreeStateResolved
                   else stateAt state (int n))"
      by (simp add: resolvesTo_def)
    moreover have "length (data s1) = length (data state)" using r by (simp add: resolvesTo_def)
    ultimately show "data s1 ! n = binTreeStateUnknown \<longrightarrow> data state ! n = binTreeStateUnknown"
      using n by (auto simp: stateAt_def split: if_splits)
  qed
  then have "length (filter (\<lambda>v. v = binTreeStateUnknown) (data s1))
           \<le> length (filter (\<lambda>v. v = binTreeStateUnknown) (data state))"
    by (induction rule: list_all2_induct) auto
  then show ?thesis by (simp add: unknownCount_def)
qed

text \<open>The nodes that the descent into a child resolves.\<close>

definition childClosure :: "binTree \<Rightarrow> int set \<Rightarrow> bool \<Rightarrow> int \<Rightarrow> int set" where
  "childClosure t W has c = {j. has \<and> c \<in> W \<and> (j = c \<or> reachesThrough t W c j)}"

lemma childClosure_closed:
  "m \<in> childClosure t W has c \<Longrightarrow> link t m j \<Longrightarrow> j \<in> W \<Longrightarrow> j \<in> childClosure t W has c"
  by (auto simp: childClosure_def intro: reachesThrough.intros)

lemma childClosure_subset: "childClosure t W has c \<subseteq> W"
  by (auto simp: childClosure_def dest: reachesThrough_in)

lemma reachesThrough_children:
  assumes "nodeAt t a = Some n"
  shows "{j. reachesThrough t W a j} =
         childClosure t W (binTreeNodeTypeHasLeft (NodeType n)) (Left n)
         \<union> childClosure t W (binTreeNodeTypeHasRight (NodeType n)) (Right n)"
proof -
  have "link t a c \<longleftrightarrow> isChild n c" for c using assms by (simp add: link_def)
  then show ?thesis
    by (subst reachesThrough_unfold) (auto simp: childClosure_def isChild_def)
qed

lemma childClosure_after:
  assumes "A = childClosure t W hasA a"
  shows "A \<union> childClosure t (W - A) has c = A \<union> childClosure t W has c"
proof
  show "A \<union> childClosure t (W - A) has c \<subseteq> A \<union> childClosure t W has c"
    by (auto simp: childClosure_def intro: reachesThrough_mono [where W = "W - A"])
next
  have closed: "\<And>m j. m \<in> A \<Longrightarrow> link t m j \<Longrightarrow> j \<in> W \<Longrightarrow> j \<in> A"
    unfolding assms by (rule childClosure_closed)
  show "A \<union> childClosure t W has c \<subseteq> A \<union> childClosure t (W - A) has c"
  proof
    fix j assume "j \<in> A \<union> childClosure t W has c"
    then consider "j \<in> A" | "has" "c \<in> W" "j = c \<or> reachesThrough t W c j"
      by (auto simp: childClosure_def)
    then show "j \<in> A \<union> childClosure t (W - A) has c"
    proof cases
      case 1
      then show ?thesis by simp
    next
      case 2
      show ?thesis
      proof (cases "c \<in> A")
        case True
        have "j \<in> A"
        proof (cases "j = c")
          case True
          with \<open>c \<in> A\<close> show ?thesis by simp
        next
          case False
          with 2(3) have "reachesThrough t W c j" by simp
          then show ?thesis using True
            by (induction rule: reachesThrough.induct) (auto intro: closed)
        qed
        then show ?thesis by simp
      next
        case False
        show ?thesis
        proof (cases "j = c")
          case True
          then show ?thesis using 2 False by (simp add: childClosure_def)
        next
          case jc: False
          with 2(3) have "reachesThrough t W c j" by simp
          from reachesThrough_avoid [OF this, of A] closed
          have "j \<in> A \<or> reachesThrough t (W - A) c j" by blast
          then show ?thesis using 2 False by (auto simp: childClosure_def)
        qed
      qed
    qed
  qed
qed


lemma resolvesTo_setState:
  assumes "stateAt st c = Some binTreeStateUnknown"
  shows "resolvesTo st {c} (setState st c binTreeStateResolved)"
proof -
  from assms have "0 \<le> c \<and> c < int (length (data st))"
    by (auto simp: stateAt_def split: if_splits)
  then show ?thesis by (auto simp: resolvesTo_def stateAt_setState)
qed

lemma childClosure_cut:
  assumes "c \<in> W"
  shows "{c} \<union> {j. reachesThrough t (W - {c}) c j} = childClosure t W True c"
proof
  show "{c} \<union> {j. reachesThrough t (W - {c}) c j} \<subseteq> childClosure t W True c"
    using assms
    by (auto simp: childClosure_def intro: reachesThrough_mono [where W = "W - {c}"])
next
  show "childClosure t W True c \<subseteq> {c} \<union> {j. reachesThrough t (W - {c}) c j}"
    using reachesThrough_cut [of t W c] by (auto simp: childClosure_def)
qed

text \<open>
  With an entry for every node and every link inside the array, the walk from a node
  returns, and it has turned to \<open>Resolved\<close> exactly the nodes that a path of links
  reaches from that node through nodes that were all \<open>Unknown\<close>.
\<close>

lemma resolveRecursive_resolves:
  "stateFits state \<Longrightarrow> nodeAt (tree state) index \<noteq> None \<Longrightarrow>
     \<exists>s'. resolveRecursive state index = Done s'
        \<and> resolvesTo state
             {j. reachesThrough (tree state) (unknownNodes state) index j} s'"
proof (induction "unknownCount state" arbitrary: state index rule: less_induct)
  case (less state index)
  have child: "\<exists>s'. resolveChild st has c = Done s'
        \<and> resolvesTo st (childClosure (tree st) (unknownNodes st) has c) s'"
    if fits: "stateFits st" and cnt: "unknownCount st \<le> unknownCount state"
      and lnk: "has \<longrightarrow> link (tree st) k c" for st has c k
  proof (cases "has \<and> stateAt st c = Some binTreeStateUnknown")
    case False
    have "has \<Longrightarrow> stateAt st c \<noteq> None"
      using fits lnk by (auto simp: stateFits_def stateAt_def)
    then have "resolveChild st has c = Done st"
      using False by (auto simp: resolveChild_def split: option.splits)
    moreover have "childClosure (tree st) (unknownNodes st) has c = {}"
      using False by (auto simp: childClosure_def unknownNodes_def)
    ultimately show ?thesis by (simp add: resolvesTo_empty)
  next
    case True
    let ?s0 = "setState st c binTreeStateResolved"
    have r0: "resolvesTo st {c} ?s0" using True by (simp add: resolvesTo_setState)
    have c0: "unknownCount ?s0 < unknownCount state"
      using True cnt unknownCount_setState [of st c binTreeStateResolved] by simp
    have f0: "stateFits ?s0" using r0 fits by (rule resolvesTo_fits)
    have n0: "nodeAt (tree ?s0) c \<noteq> None"
      using True fits by (auto simp: stateAt_def stateFits_def nodeAt_def split: if_splits)
    from less.hyps [OF c0 f0 n0] obtain s' where
      s': "resolveRecursive ?s0 c = Done s'"
        "resolvesTo ?s0 {j. reachesThrough (tree ?s0) (unknownNodes ?s0) c j} s'"
      by blast
    have w0: "unknownNodes ?s0 = unknownNodes st - {c}"
      using r0 by (rule resolvesTo_unknownNodes)
    have "resolvesTo st ({c} \<union> {j. reachesThrough (tree st) (unknownNodes st - {c}) c j}) s'"
      using resolvesTo_union [OF r0 s'(2)] by (simp add: w0)
    moreover have "c \<in> unknownNodes st" using True by (simp add: unknownNodes_def)
    ultimately have "resolvesTo st (childClosure (tree st) (unknownNodes st) True c) s'"
      using childClosure_cut [of c "unknownNodes st" "tree st"] by simp
    moreover have "resolveChild st has c = Done s'"
      using True s'(1) by (simp add: resolveChild_def)
    ultimately show ?thesis using True by auto
  qed
  from less.prems(2) obtain defNode where defNode: "nodeAt (tree state) index = Some defNode"
    by auto
  let ?t = "tree state" and ?W = "unknownNodes state"
  let ?hl = "binTreeNodeTypeHasLeft (NodeType defNode)"
  let ?hr = "binTreeNodeTypeHasRight (NodeType defNode)"
  let ?A = "childClosure ?t ?W ?hl (Left defNode)"
  have "?hl \<longrightarrow> link (tree state) index (Left defNode)"
    using defNode by (auto simp: link_def isChild_def)
  from child [OF less.prems(1) order_refl this] obtain s1 where
    s1: "resolveChild state ?hl (Left defNode) = Done s1" "resolvesTo state ?A s1"
    by blast
  have t1: "tree s1 = ?t" using s1(2) by (simp add: resolvesTo_def)
  have w1: "unknownNodes s1 = ?W - ?A" using s1(2) by (rule resolvesTo_unknownNodes)
  have "?hr \<longrightarrow> link (tree s1) index (Right defNode)"
    using defNode t1 by (auto simp: link_def isChild_def)
  from child [OF resolvesTo_fits [OF s1(2) less.prems(1)] resolvesTo_count [OF s1(2)] this]
  obtain s2 where
    s2: "resolveChild s1 ?hr (Right defNode) = Done s2"
      "resolvesTo s1 (childClosure ?t (?W - ?A) ?hr (Right defNode)) s2"
    by (auto simp: t1 w1)
  have "resolvesTo state (?A \<union> childClosure ?t (?W - ?A) ?hr (Right defNode)) s2"
    using s1(2) s2(2) by (rule resolvesTo_union)
  then have "resolvesTo state (?A \<union> childClosure ?t ?W ?hr (Right defNode)) s2"
    by (simp add: childClosure_after [OF refl])
  then have "resolvesTo state {j. reachesThrough ?t ?W index j} s2"
    by (simp add: reachesThrough_children [OF defNode])
  moreover have "resolveRecursive state index = Done s2"
    using defNode s1(1) s2(1) by (simp add: resolveRecursive_unfold)
  ultimately show ?case by blast
qed


subsection \<open>Marking a node: the node, its descendants, and the rest below it\<close>

text \<open>
  The pre-order layout of section 3.1 that \<open>Validate\<close> does not check: the node that a
  left or right link points at has the linking node as its parent.
\<close>

definition nodeLinksConsistent :: "binTree \<Rightarrow> nat \<Rightarrow> bool" where
  "nodeLinksConsistent t k \<longleftrightarrow>
     (case nodeAt t (int k) of
        None \<Rightarrow> True
      | Some n \<Rightarrow>
          (binTreeNodeTypeHasLeft (NodeType n) \<longrightarrow>
             map_option ParentIdx (nodeAt t (Left n)) = Some (int k))
          \<and> (binTreeNodeTypeHasRight (NodeType n) \<longrightarrow>
             map_option ParentIdx (nodeAt t (Right n)) = Some (int k)))"

definition linksConsistent :: "binTree \<Rightarrow> bool" where
  "linksConsistent t \<longleftrightarrow> list_all (nodeLinksConsistent t) [0..<length t]"

lemma linksConsistent_parent:
  assumes "linksConsistent t" and "link t k c"
  shows "\<exists>m. nodeAt t c = Some m \<and> ParentIdx m = k"
proof -
  from assms(2) obtain n where n: "nodeAt t k = Some n" "isChild n c"
    by (auto simp: link_def)
  then have k: "0 \<le> k" "nat k < length t" by (auto simp: nodeAt_def split: if_splits)
  from assms(1) k(2) have "nodeLinksConsistent t (nat k)"
    by (simp add: linksConsistent_def list_all_iff)
  then show ?thesis using n k(1) by (auto simp: nodeLinksConsistent_def isChild_def)
qed

lemma linksConsistent_notNotLeaf: "linksConsistent notNotLeaf"
  by (simp add: linksConsistent_def nodeLinksConsistent_def notNotLeaf_def nodeAt_def
      NewBinTreeNode_def nodeType_defs binTreeNodeTypeHasLeft_def binTreeNodeTypeHasRight_def
      upt_rec)

lemma Validate_stateFits:
  "Validate (tree state) = Valid \<Longrightarrow> length (data state) = length (tree state) \<Longrightarrow>
     stateFits state"
  using Validate_child_range [of "tree state"]
  by (fastforce simp: stateFits_def link_def)

lemma atOrBelow_le:
  assumes "Validate t = Valid" and "atOrBelow t s i"
  shows "s \<le> i"
  using assms(2)
proof (induction rule: atOrBelow.induct)
  case self
  then show ?case by simp
next
  case (up i n)
  then show ?case using Validate_parent [OF assms(1), of i n]
    by (auto split: if_splits)
qed

lemma link_less:
  assumes "Validate t = Valid" and "linksConsistent t" and "link t k c"
  shows "k < c"
proof -
  from linksConsistent_parent [OF assms(2,3)] obtain m where
    m: "nodeAt t c = Some m" "ParentIdx m = k" by blast
  from assms(3) have "0 < c" using Validate_child_range [OF assms(1)]
    by (auto simp: link_def)
  then show ?thesis using Validate_parent [OF assms(1) m(1)] m(2) by (auto split: if_splits)
qed

lemma reachesThrough_less:
  assumes "Validate t = Valid" and "linksConsistent t" and "reachesThrough t W a j"
  shows "a < j"
  using assms(3)
  by (induction rule: reachesThrough.induct)
     (use link_less [OF assms(1,2)] in \<open>fastforce+\<close>)

text \<open>
  A path of links that ends below a node which is not in \<open>W\<close> starts at or below that
  node: the links lead from parent to child, and the path cannot pass the node.
\<close>

lemma reachesThrough_below:
  assumes "linksConsistent t" and "reachesThrough t W a j" and "atOrBelow t i j" and "i \<notin> W"
  shows "atOrBelow t i a"
  using assms(2,3)
proof (induction rule: reachesThrough.induct)
  case (direct c)
  from linksConsistent_parent [OF assms(1) direct(1)] obtain m where
    m: "nodeAt t c = Some m" "ParentIdx m = a" by blast
  from direct(3) show ?case
  proof (cases rule: atOrBelow.cases)
    case self
    then show ?thesis using direct(2) assms(4) by simp
  next
    case (up n)
    then show ?thesis using m by simp
  qed
next
  case (further m' c)
  from linksConsistent_parent [OF assms(1) further(2)] obtain m where
    m: "nodeAt t c = Some m" "ParentIdx m = m'" by blast
  from further(5) have "atOrBelow t i m'"
  proof (cases rule: atOrBelow.cases)
    case self
    then show ?thesis using further(3) assms(4) by simp
  next
    case (up n)
    then show ?thesis using m by simp
  qed
  then show ?case by (rule further.IH)
qed


lemma MarkNode_outcome_cases [consumes 2, case_names stop up]:
  assumes "stateAt state i = Some binTreeStateUnknown"
    and "resolveRecursive (setState state i (boolState v)) i = Done s2"
  obtains
    (stop) "outcomeState (MarkNode state i v) = s2"
  | (up) defNode pNode v' where "i \<noteq> 0" "i \<noteq> stallIndex s2"
      "nodeAt (tree s2) i = Some defNode"
      "nodeAt (tree s2) (ParentIdx defNode) = Some pNode"
      "checkDecision s2 pNode = MarkAs v'"
      "MarkNode state i v = MarkNode s2 (ParentIdx defNode) v'"
proof -
  have unf: "MarkNode state i v =
    (if i = 0 \<or> i = stallIndex s2 then Done s2
     else
       (case nodeAt (tree s2) i of
          None \<Rightarrow> Panicked IndexOutOfRange s2
        | Some defNode \<Rightarrow>
           (case nodeAt (tree s2) (ParentIdx defNode) of
              None \<Rightarrow> Panicked IndexOutOfRange s2
            | Some pNode \<Rightarrow>
               (case checkDecision s2 pNode of
                  MarkAs v \<Rightarrow> MarkNode s2 (ParentIdx defNode) v
                | Leave \<Rightarrow> Done s2
                | Fail e \<Rightarrow> Panicked e s2))))"
    using assms by (subst MarkNode_unfold) simp
  show thesis
  proof (cases "i = 0 \<or> i = stallIndex s2")
    case True
    then show ?thesis using unf by (intro stop) simp
  next
    case False
    show ?thesis
    proof (cases "nodeAt (tree s2) i")
      case None
      then show ?thesis using unf False by (intro stop) simp
    next
      case (Some defNode)
      show ?thesis
      proof (cases "nodeAt (tree s2) (ParentIdx defNode)")
        case None
        then show ?thesis using unf False Some by (intro stop) simp
      next
        case pn: (Some pNode)
        show ?thesis
        proof (cases "checkDecision s2 pNode")
          case (MarkAs v')
          then show ?thesis using unf False Some pn
            by (intro up [of defNode pNode v']) simp_all
        next
          case Leave
          then show ?thesis using unf False Some pn by (intro stop) simp
        next
          case (Fail e)
          then show ?thesis using unf False Some pn by (intro stop) simp
        qed
      qed
    qed
  qed
qed

text \<open>
  Marking a node that is not below a resolved node \<open>i\<close> changes nothing at or below
  \<open>i\<close>: the walks that start above \<open>i\<close> stop at \<open>i\<close>.
\<close>

lemma MarkNode_frame_below:
  "Validate (tree state) = Valid \<Longrightarrow> linksConsistent (tree state) \<Longrightarrow>
   length (data state) = length (tree state) \<Longrightarrow>
   stateAt state i = Some x \<Longrightarrow> x \<noteq> binTreeStateUnknown \<Longrightarrow>
   \<not> atOrBelow (tree state) i a \<Longrightarrow> atOrBelow (tree state) i j \<Longrightarrow>
   stateAt (outcomeState (MarkNode state a val)) j = stateAt state j"
proof (induction state a val rule: MarkNode_up_induct)
  case (step state a val)
  note v = step.prems(1) and lc = step.prems(2) and len = step.prems(3)
    and ix = step.prems(4,5) and na = step.prems(6) and bj = step.prems(7)
  show ?case
  proof (cases "stateAt state a = Some binTreeStateUnknown")
    case False
    then show ?thesis by (subst MarkNode_unfold) (auto split: option.splits)
  next
    case True
    let ?t = "tree state"
    let ?s1 = "setState state a (boolState val)"
    have ja: "j \<noteq> a" using na bj by auto
    have ia: "i \<noteq> a" using na atOrBelow.self [of ?t i] by auto
    have rng: "0 \<le> a \<and> a < int (length (data state))"
      using True by (auto simp: stateAt_def split: if_splits)
    have j1: "stateAt ?s1 j = stateAt state j" and i1: "stateAt ?s1 i = Some x"
      using ja ia ix(1) by (simp_all add: stateAt_setState)
    have f1: "stateFits ?s1" using v len by (intro Validate_stateFits) simp_all
    have "nodeAt (tree ?s1) a \<noteq> None" using rng len by (simp add: nodeAt_def)
    from resolveRecursive_resolves [OF f1 this] obtain s2 where
      s2: "resolveRecursive ?s1 a = Done s2"
        "resolvesTo ?s1 {j. reachesThrough ?t (unknownNodes ?s1) a j} s2"
      by auto
    have iw: "i \<notin> unknownNodes ?s1" using i1 ix(2) by (simp add: unknownNodes_def)
    have "\<not> reachesThrough ?t (unknownNodes ?s1) a j"
      using reachesThrough_below [OF lc _ bj iw] na by blast
    then have j2: "stateAt s2 j = stateAt state j" using s2(2) j1 by (simp add: resolvesTo_def)
    have "\<not> reachesThrough ?t (unknownNodes ?s1) a i"
      using iw by (auto dest: reachesThrough_in)
    then have i2: "stateAt s2 i = Some x" using s2(2) i1 by (simp add: resolvesTo_def)
    have t2: "tree s2 = ?t" and l2: "length (data s2) = length ?t"
      using s2(2) len by (simp_all add: resolvesTo_def)
    from True s2(1) show ?thesis
    proof (cases rule: MarkNode_outcome_cases)
      case stop
      then show ?thesis using j2 by simp
    next
      case (up defNode pNode v')
      have "\<not> atOrBelow ?t i (ParentIdx defNode)"
        using na up(3) atOrBelow.up [of ?t a defNode i] by (auto simp: t2)
      then have "stateAt (outcomeState (MarkNode s2 (ParentIdx defNode) v')) j = stateAt s2 j"
        using step.IH [OF True s2(1) up(1-5)] v lc l2 i2 ix(2) bj by (simp add: t2)
      then show ?thesis using up(6) j2 by simp
    qed
  qed
qed

text \<open>
  \<open>(a and b) or c\<close> in the middle of a loop scope: stalled at the \<open>and\<close> node 1, both
  leaves below it have been marked \<open>true\<close>, node 1 has resolved to \<open>true\<close>, and leaf 2
  has been reset for the next iteration.
\<close>

definition orAndLeaves :: binTree where
  "orAndLeaves =
     [NewBinTreeNode nodeTypeOr 0 1 4, NewBinTreeNode nodeTypeAnd 0 2 3,
      NewBinTreeNode nodeTypeLeaf 1 0 0, NewBinTreeNode nodeTypeLeaf 1 0 0,
      NewBinTreeNode nodeTypeLeaf 0 0 0]"

definition replayState :: binTreeState where
  "replayState =
     \<lparr>tree = orAndLeaves,
      data = [binTreeStateUnknown, binTreeStateTrue, binTreeStateUnknown, binTreeStateTrue,
              binTreeStateUnknown],
      stallIndex = 1\<rparr>"

lemma replayState_reached:
  "MarkNode (fst (SetStallIndex (NewState orAndLeaves) 1)) 2 True
     = Done (replayState\<lparr>data := [binTreeStateUnknown, binTreeStateUnknown, binTreeStateTrue,
                                   binTreeStateUnknown, binTreeStateUnknown]\<rparr>)
   \<and> MarkNode (replayState\<lparr>data := [binTreeStateUnknown, binTreeStateUnknown, binTreeStateTrue,
                                   binTreeStateUnknown, binTreeStateUnknown]\<rparr>) 3 True
     = Done (replayState\<lparr>data := [binTreeStateUnknown, binTreeStateTrue, binTreeStateTrue,
                                   binTreeStateTrue, binTreeStateUnknown]\<rparr>)
   \<and> ResetNode (replayState\<lparr>data := [binTreeStateUnknown, binTreeStateTrue, binTreeStateTrue,
                                   binTreeStateTrue, binTreeStateUnknown]\<rparr>) 2
     = Some (Done replayState)"
  by (simp add: replayState_def orAndLeaves_def SetStallIndex_def ResetNode_def
      resetNodeRecursive.simps run_simps)

lemma replayState_facts:
  "Validate (tree replayState) = Valid" "linksConsistent (tree replayState)"
  "length (data replayState) = length (tree replayState)"
  "stateAt replayState 0 = Some binTreeStateUnknown"
  "stateAt replayState 2 = Some binTreeStateUnknown"
  "link (tree replayState) 0 1" "link (tree replayState) 1 2" "link (tree replayState) 0 4"
  "1 \<notin> unknownNodes replayState" "4 \<in> unknownNodes replayState"
  by (simp_all add: replayState_def orAndLeaves_def validate_simps linksConsistent_def
      nodeLinksConsistent_def upt_rec stateAt_def link_def isChild_def unknownNodes_def)

lemma replayState_run:
  "MarkNode replayState 0 True
     = Done (replayState\<lparr>data := [binTreeStateTrue, binTreeStateTrue, binTreeStateUnknown,
                                   binTreeStateTrue, binTreeStateResolved]\<rparr>)"
  by (simp add: replayState_def orAndLeaves_def run_simps)

lemma replayState_below: "atOrBelow (tree replayState) 1 2" "atOrBelow (tree replayState) 0 2"
proof -
  have n2: "nodeAt (tree replayState) 2 = Some (NewBinTreeNode nodeTypeLeaf 1 0 0)"
    and n1: "nodeAt (tree replayState) 1 = Some (NewBinTreeNode nodeTypeAnd 0 2 3)"
    by (simp_all add: replayState_def orAndLeaves_def nodeAt_def)
  have p2: "ParentIdx (NewBinTreeNode nodeTypeLeaf 1 0 0) = 1"
    and p1: "ParentIdx (NewBinTreeNode nodeTypeAnd 0 2 3) = 0"
    by (simp_all add: NewBinTreeNode_def)
  show b12: "atOrBelow (tree replayState) 1 2"
    using n2 by (rule atOrBelow.up) (simp add: p2 atOrBelow.self)
  have "atOrBelow (tree replayState) 0 1"
    using n1 by (rule atOrBelow.up) (simp add: p1 atOrBelow.self)
  then have "atOrBelow (tree replayState) 0 (ParentIdx (NewBinTreeNode nodeTypeLeaf 1 0 0))"
    by (simp only: p2)
  with n2 show "atOrBelow (tree replayState) 0 2"
    by (rule atOrBelow.up)
qed

lemma replayState_unreached:
  "\<not> reachesThrough (tree replayState) (unknownNodes replayState) 0 2"
proof
  assume "reachesThrough (tree replayState) (unknownNodes replayState) 0 2"
  from reachesThrough_below [OF replayState_facts(2) this replayState_below(1)
      replayState_facts(9)]
  have "atOrBelow (tree replayState) 1 0" .
  from atOrBelow_le [OF replayState_facts(1) this] show False by simp
qed

text \<open>
  C1, amended: over a tree that \<open>Validate\<close> accepts and whose links agree with its parent
  indices, with one entry per node, \<open>MarkNode\<close> on an \<open>Unknown\<close> node \<open>i\<close> sets it to
  \<open>True\<close> or \<open>False\<close>; it sets to \<open>Resolved\<close> every node that a path of left/right
  links reaches from \<open>i\<close> through nodes that are all \<open>Unknown\<close>; and every other node
  below \<open>i\<close> is as it was, among them the \<open>Unknown\<close> nodes that lie behind a node
  already resolved. This holds whether the call returns or panics further up.
\<close>

theorem MarkNode_marks_and_resolves_below:
  assumes "Validate (tree state) = Valid" and "linksConsistent (tree state)"
    and "length (data state) = length (tree state)"
    and "stateAt state i = Some binTreeStateUnknown"
  shows "stateAt (outcomeState (MarkNode state i v)) i
           = Some (if v then binTreeStateTrue else binTreeStateFalse)
       \<and> (\<forall>j. reachesThrough (tree state) (unknownNodes state) i j \<longrightarrow>
             stateAt (outcomeState (MarkNode state i v)) j = Some binTreeStateResolved)
       \<and> (\<forall>j. atOrBelow (tree state) i j \<and> j \<noteq> i
               \<and> \<not> reachesThrough (tree state) (unknownNodes state) i j \<longrightarrow>
             stateAt (outcomeState (MarkNode state i v)) j = stateAt state j)"
proof -
  note v = assms(1) and lc = assms(2) and len = assms(3) and u = assms(4)
  let ?t = "tree state"
  let ?s1 = "setState state i (boolState v)"
  let ?out = "outcomeState (MarkNode state i v)"
  have rng: "0 \<le> i \<and> i < int (length (data state))"
    using u by (auto simp: stateAt_def split: if_splits)
  have i1: "stateAt ?s1 i = Some (boolState v)"
    and o1: "\<And>j. j \<noteq> i \<Longrightarrow> stateAt ?s1 j = stateAt state j"
    using rng by (simp_all add: stateAt_setState)
  have w1: "unknownNodes ?s1 = unknownNodes state - {i}"
    using rng by (auto simp: unknownNodes_def stateAt_setState)
  have f1: "stateFits ?s1" using v len by (intro Validate_stateFits) simp_all
  have "nodeAt (tree ?s1) i \<noteq> None" using rng len by (simp add: nodeAt_def)
  from resolveRecursive_resolves [OF f1 this] obtain s2 where
    s2: "resolveRecursive ?s1 i = Done s2"
      "resolvesTo ?s1 {j. reachesThrough ?t (unknownNodes state - {i}) i j} s2"
    by (auto simp: w1)
  have t2: "tree s2 = ?t" and l2: "length (data s2) = length ?t"
    using s2(2) len by (simp_all add: resolvesTo_def)
  have at2: "\<And>j. stateAt s2 j =
      (if reachesThrough ?t (unknownNodes state - {i}) i j then Some binTreeStateResolved
       else stateAt ?s1 j)"
    using s2(2) by (simp add: resolvesTo_def)
  have i2: "stateAt s2 i = Some (boolState v)"
    using at2 [of i] i1 by (auto dest: reachesThrough_in)
  have frame: "stateAt ?out j = stateAt s2 j" if "atOrBelow ?t i j" for j
    using u s2(1)
  proof (cases rule: MarkNode_outcome_cases)
    case stop
    then show ?thesis by simp
  next
    case (up defNode pNode v')
    have "ParentIdx defNode < i"
      using Validate_parent [OF v, of i defNode] up(1,3) by (simp add: t2)
    then have "\<not> atOrBelow ?t i (ParentIdx defNode)"
      using atOrBelow_le [OF v, of i "ParentIdx defNode"] by auto
    then have "stateAt (outcomeState (MarkNode s2 (ParentIdx defNode) v')) j = stateAt s2 j"
      using MarkNode_frame_below [of s2 i "boolState v" "ParentIdx defNode" j v']
        v lc l2 i2 that by (simp add: t2)
    then show ?thesis using up(6) by simp
  qed
  have kept: "stateAt ?out j = Some x" if "stateAt s2 j = Some x" "x \<noteq> binTreeStateUnknown"
    for j x
    using u s2(1)
  proof (cases rule: MarkNode_outcome_cases)
    case stop
    then show ?thesis using that by simp
  next
    case (up defNode pNode v')
    then show ?thesis using MarkNode_preserves [of s2 "ParentIdx defNode" v'] that
      by (simp add: preserves_def)
  qed
  have a: "stateAt ?out i = Some (if v then binTreeStateTrue else binTreeStateFalse)"
    using kept [OF i2] by (simp add: boolState_def)
  have b: "stateAt ?out j = Some binTreeStateResolved"
    if "reachesThrough ?t (unknownNodes state) i j" for j
  proof -
    have "i < j" using reachesThrough_less [OF v lc that] .
    with reachesThrough_cut [OF that]
    have "reachesThrough ?t (unknownNodes state - {i}) i j" by simp
    then have "stateAt s2 j = Some binTreeStateResolved" using at2 by simp
    then show ?thesis by (rule kept) simp
  qed
  have c: "stateAt ?out j = stateAt state j"
    if "atOrBelow ?t i j" "j \<noteq> i" "\<not> reachesThrough ?t (unknownNodes state) i j" for j
  proof -
    have "\<not> reachesThrough ?t (unknownNodes state - {i}) i j"
      using that(3) reachesThrough_mono [of ?t "unknownNodes state - {i}" i j "unknownNodes state"]
      by auto
    then have "stateAt s2 j = stateAt state j" using at2 [of j] o1 [OF that(2)] by simp
    then show ?thesis using frame [OF that(1)] by simp
  qed
  from a b c show ?thesis by blast
qed


theorem MarkNode_marks_and_resolves_below_witness:
  "Validate (tree replayState) = Valid \<and> linksConsistent (tree replayState)
   \<and> length (data replayState) = length (tree replayState)
   \<and> stateAt replayState 0 = Some binTreeStateUnknown
   \<and> stateAt (outcomeState (MarkNode replayState 0 True)) 0 = Some binTreeStateTrue
   \<and> reachesThrough (tree replayState) (unknownNodes replayState) 0 4
   \<and> stateAt (outcomeState (MarkNode replayState 0 True)) 4 = Some binTreeStateResolved
   \<and> atOrBelow (tree replayState) 0 2
   \<and> \<not> reachesThrough (tree replayState) (unknownNodes replayState) 0 2
   \<and> stateAt (outcomeState (MarkNode replayState 0 True)) 2 = stateAt replayState 2"
proof -
  note h = replayState_facts(1-4)
  have r4: "reachesThrough (tree replayState) (unknownNodes replayState) 0 4"
    using replayState_facts(8,10) by (rule reachesThrough.direct)
  from MarkNode_marks_and_resolves_below [OF h, of True] r4 replayState_below(2)
    replayState_unreached h
  show ?thesis by simp
qed

text \<open>
  The claim as it is written fails in the state above: leaf 2 is a descendant of the
  root and is \<open>Unknown\<close>, and \<open>MarkNode\<close> on the root leaves it \<open>Unknown\<close>, because
  the walk does not go below node 1, which is resolved already.
\<close>

theorem MarkNode_leaves_unknown_descendant:
  "Validate (tree replayState) = Valid \<and> linksConsistent (tree replayState)
   \<and> stateAt replayState 0 = Some binTreeStateUnknown
   \<and> link (tree replayState) 0 1 \<and> link (tree replayState) 1 2
   \<and> stateAt replayState 2 = Some binTreeStateUnknown
   \<and> MarkNode replayState 0 True
       = Done (replayState\<lparr>data := [binTreeStateTrue, binTreeStateTrue, binTreeStateUnknown,
                                     binTreeStateTrue, binTreeStateResolved]\<rparr>)
   \<and> stateAt (outcomeState (MarkNode replayState 0 True)) 2 = Some binTreeStateUnknown"
  using replayState_facts replayState_run
  by (simp add: stateAt_def)


subsection \<open>Neor nodes over a run of leaf marks\<close>

text \<open>A run of \<open>MarkNode\<close> calls, each on the state the one before returned.\<close>

fun markAll :: "binTreeState \<Rightarrow> (int \<times> bool) list \<Rightarrow> outcome" where
  "markAll state [] = Done state"
| "markAll state ((i, v) # calls) =
     (case MarkNode state i v of
        Panicked e st \<Rightarrow> Panicked e st
      | Done state1 \<Rightarrow> markAll state1 calls)"

definition isLeafAt :: "binTree \<Rightarrow> int \<Rightarrow> bool" where
  "isLeafAt t i \<longleftrightarrow> map_option NodeType (nodeAt t i) = Some nodeTypeLeaf"

text \<open>
  \<open>closedDown\<close>: no node that is resolved has an \<open>Unknown\<close> child. \<open>neorSettled s k\<close>: if
  \<open>k\<close> is a \<open>Neor\<close> node and neither child is \<open>Unknown\<close>, then \<open>k\<close> is \<open>Resolved\<close>, or
  it is \<open>True\<close> or \<open>False\<close> according to whether a child is \<open>True\<close>.
\<close>

definition closedDown :: "binTreeState \<Rightarrow> bool" where
  "closedDown s \<longleftrightarrow>
     (\<forall>k c. link (tree s) k c \<and> c \<in> unknownNodes s \<longrightarrow> k \<in> unknownNodes s)"

definition neorSettled :: "binTreeState \<Rightarrow> int \<Rightarrow> bool" where
  "neorSettled s k \<longleftrightarrow>
     (\<forall>n. nodeAt (tree s) k = Some n \<and> NodeType n = nodeTypeNeor
          \<and> Left n \<notin> unknownNodes s \<and> Right n \<notin> unknownNodes s \<longrightarrow>
          stateAt s k = Some binTreeStateResolved
          \<or> stateAt s k = Some (boolState (stateAt s (Left n) = Some binTreeStateTrue
                                          \<or> stateAt s (Right n) = Some binTreeStateTrue)))"

lemma reachesThrough_last:
  "reachesThrough t W a c \<Longrightarrow> \<exists>m. link t m c \<and> (m = a \<or> reachesThrough t W a m)"
  by (cases rule: reachesThrough.cases) auto

lemma checkDecision_Neor_MarkAs:
  assumes "NodeType pNode = nodeTypeNeor" and "checkDecision s pNode = MarkAs v"
  shows "\<exists>l r. stateAt s (Left pNode) = Some l \<and> stateAt s (Right pNode) = Some r
          \<and> l \<noteq> binTreeStateUnknown \<and> r \<noteq> binTreeStateUnknown
          \<and> v = (l = binTreeStateTrue \<or> r = binTreeStateTrue)"
  using assms
  by (auto simp: checkDecision_def nodeType_defs split: option.splits if_splits)

lemma checkDecision_Neor_Leave:
  assumes "NodeType pNode = nodeTypeNeor" and "checkDecision s pNode = Leave"
  shows "stateAt s (Left pNode) = Some binTreeStateUnknown
       \<or> stateAt s (Right pNode) = Some binTreeStateUnknown"
  using assms
  by (auto simp: checkDecision_def nodeType_defs split: option.splits if_splits)

lemma MarkNode_Done_cases [consumes 1, case_names stop leave up]:
  assumes "MarkNode state i v = Done s'"
  obtains
    (stop) "stateAt state i = Some binTreeStateUnknown"
      "resolveRecursive (setState state i (boolState v)) i = Done s'"
      "i = 0 \<or> i = stallIndex s'"
  | (leave) defNode pNode where "stateAt state i = Some binTreeStateUnknown"
      "resolveRecursive (setState state i (boolState v)) i = Done s'"
      "i \<noteq> 0" "nodeAt (tree s') i = Some defNode"
      "nodeAt (tree s') (ParentIdx defNode) = Some pNode"
      "checkDecision s' pNode = Leave"
  | (up) s2 defNode pNode v' where "stateAt state i = Some binTreeStateUnknown"
      "resolveRecursive (setState state i (boolState v)) i = Done s2"
      "i \<noteq> 0" "i \<noteq> stallIndex s2" "nodeAt (tree s2) i = Some defNode"
      "nodeAt (tree s2) (ParentIdx defNode) = Some pNode"
      "checkDecision s2 pNode = MarkAs v'"
      "MarkNode s2 (ParentIdx defNode) v' = Done s'"
proof -
  note body = assms [unfolded MarkNode_unfold [of state i v]]
  from body have u: "stateAt state i = Some binTreeStateUnknown"
    by (auto split: option.splits if_splits)
  from body u obtain s2 where
    s2: "resolveRecursive (setState state i (boolState v)) i = Done s2"
    by (auto split: outcome.splits)
  show thesis
  proof (cases "i = 0 \<or> i = stallIndex s2")
    case True
    then show ?thesis using body u s2 by (intro stop) auto
  next
    case False
    with body u s2 obtain defNode pNode where
      n: "nodeAt (tree s2) i = Some defNode" "nodeAt (tree s2) (ParentIdx defNode) = Some pNode"
      by (auto split: option.splits)
    show ?thesis
    proof (cases "checkDecision s2 pNode")
      case (MarkAs v')
      then show ?thesis using body u s2 False n
        by (intro up [of s2 defNode pNode v']) auto
    next
      case Leave
      then show ?thesis using body u s2 False n
        by (intro leave [of defNode pNode]) auto
    next
      case (Fail e)
      then show ?thesis using body u s2 False n by auto
    qed
  qed
qed


lemma mark_then_resolve:
  assumes v: "Validate (tree state) = Valid" and len: "length (data state) = length (tree state)"
    and u: "stateAt state i = Some binTreeStateUnknown"
    and r: "resolveRecursive (setState state i (boolState val)) i = Done s2"
  shows "tree s2 = tree state" and "length (data s2) = length (tree state)"
    and "stallIndex s2 = stallIndex state"
    and "\<And>j. stateAt s2 j =
           (if j = i then Some (boolState val)
            else if reachesThrough (tree state) (unknownNodes state - {i}) i j
            then Some binTreeStateResolved else stateAt state j)"
proof -
  let ?s1 = "setState state i (boolState val)"
  have rng: "0 \<le> i \<and> i < int (length (data state))"
    using u by (auto simp: stateAt_def split: if_splits)
  have w1: "unknownNodes ?s1 = unknownNodes state - {i}"
    using rng by (auto simp: unknownNodes_def stateAt_setState)
  have f1: "stateFits ?s1" using v len by (intro Validate_stateFits) simp_all
  have "nodeAt (tree ?s1) i \<noteq> None" using rng len by (simp add: nodeAt_def)
  from resolveRecursive_resolves [OF f1 this] r
  have res: "resolvesTo ?s1 {j. reachesThrough (tree state) (unknownNodes state - {i}) i j} s2"
    by (auto simp: w1)
  then show "tree s2 = tree state" "length (data s2) = length (tree state)"
    "stallIndex s2 = stallIndex state"
    using len by (simp_all add: resolvesTo_def)
  fix j
  have "\<not> reachesThrough (tree state) (unknownNodes state - {i}) i i"
    by (auto dest: reachesThrough_in)
  then show "stateAt s2 j =
           (if j = i then Some (boolState val)
            else if reachesThrough (tree state) (unknownNodes state - {i}) i j
            then Some binTreeStateResolved else stateAt state j)"
    using res rng by (auto simp: resolvesTo_def stateAt_setState)
qed

lemma unknownNodes_iff:
  "c \<in> unknownNodes s \<longleftrightarrow> stateAt s c = Some binTreeStateUnknown"
  by (simp add: unknownNodes_def)

text \<open>
  One call of \<open>MarkNode\<close> that returns keeps the two invariants, when the stall index is
  0, every \<open>Neor\<close> node other than the marked one is settled, and a marked \<open>Neor\<close> node
  gets the value that its two resolved children give.
\<close>

lemma MarkNode_keeps_invariant:
  "Validate (tree state) = Valid \<Longrightarrow> linksConsistent (tree state) \<Longrightarrow>
   length (data state) = length (tree state) \<Longrightarrow> stallIndex state = 0 \<Longrightarrow>
   closedDown state \<Longrightarrow> (\<forall>k. k \<noteq> i \<longrightarrow> neorSettled state k) \<Longrightarrow>
   (\<forall>n. nodeAt (tree state) i = Some n \<and> NodeType n = nodeTypeNeor \<longrightarrow>
        Left n \<notin> unknownNodes state \<and> Right n \<notin> unknownNodes state
        \<and> val = (stateAt state (Left n) = Some binTreeStateTrue
                 \<or> stateAt state (Right n) = Some binTreeStateTrue)) \<Longrightarrow>
   MarkNode state i val = Done s' \<Longrightarrow>
   closedDown s' \<and> (\<forall>k. neorSettled s' k) \<and> tree s' = tree state
   \<and> stallIndex s' = 0 \<and> length (data s') = length (tree state)"
proof (induction state i val arbitrary: s' rule: MarkNode_up_induct)
  case (step state i val)
  note v = step.prems(1) and lc = step.prems(2) and len = step.prems(3)
    and st0 = step.prems(4) and cl = step.prems(5) and ns = step.prems(6)
    and nv = step.prems(7) and dn = step.prems(8)
  let ?t = "tree state"
  let ?W = "unknownNodes state"
  let ?R = "\<lambda>j. reachesThrough ?t (?W - {i}) i j"
  have inrange: "\<exists>x. stateAt state c = Some x" if "link ?t k c" for k c
    using Validate_stateFits [OF v len] that by (auto simp: stateFits_def stateAt_def len)
  have after: "closedDown s2 \<and> (\<forall>m. \<not> link ?t m i \<longrightarrow> neorSettled s2 m)"
    if u: "stateAt state i = Some binTreeStateUnknown"
      and r: "resolveRecursive (setState state i (boolState val)) i = Done s2" for s2
  proof -
    note m = mark_then_resolve [OF v len u r]
    have w2: "c \<in> unknownNodes s2 \<longleftrightarrow> c \<in> ?W \<and> c \<noteq> i \<and> \<not> ?R c" for c
      by (auto simp: unknownNodes_iff m(4))
    have "closedDown s2"
      unfolding closedDown_def m(1)
    proof (intro allI impI, elim conjE)
      fix k c assume l: "link ?t k c" and c: "c \<in> unknownNodes s2"
      from c have c': "c \<in> ?W" "c \<noteq> i" "\<not> ?R c" by (simp_all add: w2)
      from cl l c'(1) have "k \<in> ?W" by (auto simp: closedDown_def)
      moreover have "k \<noteq> i"
        using l c' by (auto intro: reachesThrough.direct)
      moreover have "\<not> ?R k"
        using l c' by (auto intro: reachesThrough.further)
      ultimately show "k \<in> unknownNodes s2" by (simp add: w2)
    qed
    moreover have "neorSettled s2 m" if nl: "\<not> link ?t m i" for m
      unfolding neorSettled_def m(1)
    proof (intro allI impI, elim conjE)
      fix n
      assume n: "nodeAt ?t m = Some n" "NodeType n = nodeTypeNeor"
        and lr: "Left n \<notin> unknownNodes s2" "Right n \<notin> unknownNodes s2"
      let ?L = "Left n" and ?Rt = "Right n"
      have links: "link ?t m ?L" "link ?t m ?Rt"
        using n by (auto simp: link_def isChild_def nodeType_defs
            binTreeNodeTypeHasLeft_def binTreeNodeTypeHasRight_def)
      then have ne: "?L \<noteq> i" "?Rt \<noteq> i" using nl by auto
      have keep: "stateAt s2 c = stateAt state c" if "c \<notin> ?W" "c \<noteq> i" for c
        using that by (auto simp: m(4) dest: reachesThrough_in)
      show "stateAt s2 m = Some binTreeStateResolved
          \<or> stateAt s2 m = Some (boolState (stateAt s2 ?L = Some binTreeStateTrue
                                           \<or> stateAt s2 ?Rt = Some binTreeStateTrue))"
      proof (cases "m = i")
        case True
        with nv n have "?L \<notin> ?W" "?Rt \<notin> ?W"
          and "val = (stateAt state ?L = Some binTreeStateTrue
                    \<or> stateAt state ?Rt = Some binTreeStateTrue)"
          by auto
        then show ?thesis using True keep ne by (simp add: m(4))
      next
        case False
        show ?thesis
        proof (cases "?R m")
          case True
          then show ?thesis using False by (simp add: m(4))
        next
          case nr: False
          have out: "c \<notin> ?W" if l: "link ?t m c" and c2: "c \<notin> unknownNodes s2" for c
          proof
            assume "c \<in> ?W"
            with c2 nl l have "?R c" by (auto simp: w2)
            from reachesThrough_last [OF this] obtain m' where
              m': "link ?t m' c" "m' = i \<or> ?R m'" by blast
            from linksConsistent_parent [OF lc l] linksConsistent_parent [OF lc m'(1)]
            have "m' = m" by auto
            with m'(2) False nr show False by simp
          qed
          have lw: "?L \<notin> ?W" "?Rt \<notin> ?W" using out links lr by auto
          with ns n False have "stateAt state m = Some binTreeStateResolved
            \<or> stateAt state m = Some (boolState (stateAt state ?L = Some binTreeStateTrue
                                           \<or> stateAt state ?Rt = Some binTreeStateTrue))"
            by (auto simp: neorSettled_def)
          moreover have "stateAt s2 m = stateAt state m" using False nr by (simp add: m(4))
          ultimately show ?thesis using keep lw ne by simp
        qed
      qed
    qed
    ultimately show ?thesis by blast
  qed
  have nolink0: "\<not> link ?t m 0" for m
    using Validate_child_range [OF v] by (fastforce simp: link_def)
  from dn show ?case
  proof (cases rule: MarkNode_Done_cases)
    case stop
    note m = mark_then_resolve [OF v len stop(1,2)]
    from stop(3) m(3) st0 have "i = 0" by auto
    then show ?thesis using after [OF stop(1,2)] nolink0 m st0 by auto
  next
    case (leave defNode pNode)
    note m = mark_then_resolve [OF v len leave(1,2)]
    have "neorSettled s' k" for k
    proof (cases "link ?t k i")
      case False
      then show ?thesis using after [OF leave(1,2)] by blast
    next
      case True
      from linksConsistent_parent [OF lc True] leave(4) have "k = ParentIdx defNode"
        by (auto simp: m(1))
      then show ?thesis
        using leave(5,6) checkDecision_Neor_Leave [of pNode s']
        by (auto simp: neorSettled_def unknownNodes_iff)
    qed
    then show ?thesis using after [OF leave(1,2)] m st0 by auto
  next
    case (up s2 defNode pNode v')
    note m = mark_then_resolve [OF v len up(1,2)]
    have a: "closedDown s2" "\<And>m. \<not> link ?t m i \<Longrightarrow> neorSettled s2 m"
      using after [OF up(1,2)] by auto
    have others: "\<forall>k. k \<noteq> ParentIdx defNode \<longrightarrow> neorSettled s2 k"
    proof (intro allI impI)
      fix k assume k: "k \<noteq> ParentIdx defNode"
      have "\<not> link ?t k i"
      proof
        assume "link ?t k i"
        from linksConsistent_parent [OF lc this] up(5) k show False by (auto simp: m(1))
      qed
      then show "neorSettled s2 k" by (rule a(2))
    qed
    have pv: "\<forall>n. nodeAt (tree s2) (ParentIdx defNode) = Some n \<and> NodeType n = nodeTypeNeor \<longrightarrow>
        Left n \<notin> unknownNodes s2 \<and> Right n \<notin> unknownNodes s2
        \<and> v' = (stateAt s2 (Left n) = Some binTreeStateTrue
                \<or> stateAt s2 (Right n) = Some binTreeStateTrue)"
      using up(6,7) checkDecision_Neor_MarkAs [of pNode s2 v']
      by (auto simp: unknownNodes_iff)
    have "closedDown s' \<and> (\<forall>k. neorSettled s' k) \<and> tree s' = tree s2
          \<and> stallIndex s' = 0 \<and> length (data s') = length (tree s2)"
      using step.IH [OF up(1-7) _ _ _ _ a(1) others pv up(8)] v lc m st0
      by simp
    then show ?thesis using m by simp
  qed
qed


definition evaluationInvariant :: "binTree \<Rightarrow> binTreeState \<Rightarrow> bool" where
  "evaluationInvariant t s \<longleftrightarrow>
     tree s = t \<and> stallIndex s = 0 \<and> length (data s) = length t
     \<and> closedDown s \<and> (\<forall>k. neorSettled s k)"

lemma NewState_invariant:
  assumes "Validate t = Valid"
  shows "evaluationInvariant t (NewState t)"
proof -
  have all: "stateAt (NewState t) c = Some binTreeStateUnknown"
    if "0 \<le> c" "c < int (length t)" for c
    using that by (simp add: NewState_def stateAt_def)
  have "closedDown (NewState t)"
    unfolding closedDown_def
  proof (intro allI impI, elim conjE)
    fix k c assume "link (tree (NewState t)) k c"
    then have "0 \<le> k \<and> k < int (length t)"
      by (auto simp: link_def NewState_def nodeAt_def split: if_splits)
    then show "k \<in> unknownNodes (NewState t)" using all by (simp add: unknownNodes_iff)
  qed
  moreover have "neorSettled (NewState t) k" for k
    unfolding neorSettled_def
  proof (intro allI impI, elim conjE)
    fix n assume n: "nodeAt (tree (NewState t)) k = Some n" "NodeType n = nodeTypeNeor"
      and l: "Left n \<notin> unknownNodes (NewState t)"
    from n have "isChild n (Left n)"
      by (simp add: isChild_def nodeType_defs binTreeNodeTypeHasLeft_def)
    with Validate_child_range [OF assms, of k n "Left n"] n(1)
    have "Left n \<in> unknownNodes (NewState t)"
      using all by (simp add: unknownNodes_iff NewState_def)
    with l show "stateAt (NewState t) k = Some binTreeStateResolved
          \<or> stateAt (NewState t) k =
              Some (boolState (stateAt (NewState t) (Left n) = Some binTreeStateTrue
                             \<or> stateAt (NewState t) (Right n) = Some binTreeStateTrue))"
      by simp
  qed
  ultimately show ?thesis by (simp add: evaluationInvariant_def NewState_def)
qed

lemma markAll_invariant:
  assumes "Validate t = Valid" and "linksConsistent t"
  shows "evaluationInvariant t state \<Longrightarrow> \<forall>(i, v) \<in> set calls. isLeafAt t i \<Longrightarrow>
         markAll state calls = Done s \<Longrightarrow> evaluationInvariant t s"
proof (induction calls arbitrary: state)
  case Nil
  then show ?case by simp
next
  case (Cons call calls)
  obtain i v where call: "call = (i, v)" by (cases call)
  from Cons.prems(3) obtain s1 where
    s1: "MarkNode state i v = Done s1" "markAll s1 calls = Done s"
    by (auto simp: call split: outcome.splits)
  from Cons.prems(2) have leaf: "isLeafAt t i" by (simp add: call)
  from Cons.prems(1) have inv: "tree state = t" "stallIndex state = 0"
    "length (data state) = length t" "closedDown state" "\<forall>k. neorSettled state k"
    by (simp_all add: evaluationInvariant_def)
  have "\<forall>n. nodeAt (tree state) i = Some n \<and> NodeType n = nodeTypeNeor \<longrightarrow>
        Left n \<notin> unknownNodes state \<and> Right n \<notin> unknownNodes state
        \<and> v = (stateAt state (Left n) = Some binTreeStateTrue
                \<or> stateAt state (Right n) = Some binTreeStateTrue)"
    using leaf by (auto simp: isLeafAt_def inv(1) nodeType_defs)
  from MarkNode_keeps_invariant [OF _ _ _ inv(2) inv(4) _ this s1(1)] assms inv
  have "evaluationInvariant t s1" by (simp add: evaluationInvariant_def)
  then show ?case using Cons.IH [OF _ _ s1(2)] Cons.prems(2) by simp
qed

definition orLeafNeor :: binTree where
  "orLeafNeor =
     [NewBinTreeNode nodeTypeOr 0 1 2, NewBinTreeNode nodeTypeLeaf 0 0 0,
      NewBinTreeNode nodeTypeNeor 0 3 4, NewBinTreeNode nodeTypeLeaf 2 0 0,
      NewBinTreeNode nodeTypeLeaf 2 0 0]"

lemma orLeafNeor_facts:
  "Validate orLeafNeor = Valid" "linksConsistent orLeafNeor"
  "nodeAt orLeafNeor 2 = Some (NewBinTreeNode nodeTypeNeor 0 3 4)"
  "NodeType (NewBinTreeNode nodeTypeNeor 0 3 4) = nodeTypeNeor"
  "isLeafAt orLeafNeor 1" "isLeafAt orLeafNeor 3" "isLeafAt orLeafNeor 4"
  by (simp_all add: orLeafNeor_def validate_simps linksConsistent_def
      nodeLinksConsistent_def upt_rec isLeafAt_def)

text \<open>
  Two more invariants of a run. \<open>neorWaited\<close>: a \<open>Neor\<close> node with a \<open>Resolved\<close> child is
  \<open>Resolved\<close> itself, so that no walk started at a \<open>Neor\<close> node has resolved a child of
  it. \<open>resolvedUnder\<close>: a \<open>Resolved\<close> node is linked from a node that is not \<open>Unknown\<close>.
\<close>

definition neorWaited :: "binTreeState \<Rightarrow> bool" where
  "neorWaited s \<longleftrightarrow>
     (\<forall>k n c. nodeAt (tree s) k = Some n \<and> NodeType n = nodeTypeNeor \<and> link (tree s) k c
          \<and> stateAt s c = Some binTreeStateResolved \<longrightarrow>
          stateAt s k = Some binTreeStateResolved)"

definition resolvedUnder :: "binTreeState \<Rightarrow> bool" where
  "resolvedUnder s \<longleftrightarrow>
     (\<forall>c. stateAt s c = Some binTreeStateResolved \<longrightarrow>
          (\<exists>m x. link (tree s) m c \<and> stateAt s m = Some x \<and> x \<noteq> binTreeStateUnknown))"

lemma boolState_neq_Resolved [simp]: "boolState v \<noteq> binTreeStateResolved"
  by (simp add: boolState_def)

lemma Neor_links:
  assumes "nodeAt t k = Some n" and "NodeType n = nodeTypeNeor"
  shows "link t k c \<longleftrightarrow> c = Left n \<or> c = Right n"
  using assms
  by (auto simp: link_def isChild_def nodeType_defs binTreeNodeTypeHasLeft_def
      binTreeNodeTypeHasRight_def)

lemma MarkNode_keeps_waiting:
  "Validate (tree state) = Valid \<Longrightarrow> linksConsistent (tree state) \<Longrightarrow>
   length (data state) = length (tree state) \<Longrightarrow>
   neorWaited state \<Longrightarrow> resolvedUnder state \<Longrightarrow>
   (\<forall>n. nodeAt (tree state) i = Some n \<and> NodeType n = nodeTypeNeor \<longrightarrow>
        Left n \<notin> unknownNodes state \<and> Right n \<notin> unknownNodes state) \<Longrightarrow>
   MarkNode state i val = Done s' \<Longrightarrow>
   neorWaited s' \<and> resolvedUnder s' \<and> tree s' = tree state
   \<and> length (data s') = length (tree state)"
proof (induction state i val arbitrary: s' rule: MarkNode_up_induct)
  case (step state i val)
  note v = step.prems(1) and lc = step.prems(2) and len = step.prems(3)
    and nw = step.prems(4) and ru = step.prems(5) and nv = step.prems(6)
    and dn = step.prems(7)
  let ?t = "tree state"
  let ?W = "unknownNodes state"
  let ?R = "\<lambda>j. reachesThrough ?t (?W - {i}) i j"
  have after: "neorWaited s2 \<and> resolvedUnder s2"
    if u: "stateAt state i = Some binTreeStateUnknown"
      and r: "resolveRecursive (setState state i (boolState val)) i = Done s2" for s2
  proof -
    note m = mark_then_resolve [OF v len u r]
    have inW: "c \<in> ?W" "c \<noteq> i" if "?R c" for c
      using reachesThrough_in [OF that] by auto
    have parent: "m = k" if "link ?t m c" "link ?t k c" for m k c
      using linksConsistent_parent [OF lc that(1)] linksConsistent_parent [OF lc that(2)]
      by auto
    have keep: "stateAt s2 j = stateAt state j" if "stateAt state j = Some x"
      "x \<noteq> binTreeStateUnknown" for j x
    proof -
      from that u have "j \<noteq> i" by auto
      moreover from that have "j \<notin> ?W" by (simp add: unknownNodes_iff)
      then have "\<not> ?R j" using inW(1) by blast
      ultimately show ?thesis by (simp add: m(4))
    qed
    have "neorWaited s2"
      unfolding neorWaited_def m(1)
    proof (intro allI impI, elim conjE)
      fix k n c
      assume n: "nodeAt ?t k = Some n" "NodeType n = nodeTypeNeor" and l: "link ?t k c"
        and c: "stateAt s2 c = Some binTreeStateResolved"
      from c have ci: "c \<noteq> i" by (auto simp: m(4))
      show "stateAt s2 k = Some binTreeStateResolved"
      proof (cases "?R c")
        case True
        from reachesThrough_last [OF True] obtain m' where
          m': "link ?t m' c" "m' = i \<or> ?R m'" by blast
        from parent [OF m'(1) l] have mk: "m' = k" .
        have "k \<noteq> i"
        proof
          assume "k = i"
          with nv n have "Left n \<notin> ?W" "Right n \<notin> ?W" by auto
          moreover from l n have "c = Left n \<or> c = Right n" by (simp add: Neor_links)
          ultimately show False using inW(1) [OF True] by auto
        qed
        with m'(2) mk have "?R k" by simp
        then show ?thesis using inW(2) [of k] by (simp add: m(4))
      next
        case False
        with c ci have old: "stateAt state c = Some binTreeStateResolved" by (simp add: m(4))
        with nw n l have "stateAt state k = Some binTreeStateResolved"
          unfolding neorWaited_def by blast
        then show ?thesis using keep [of k binTreeStateResolved] by simp
      qed
    qed
    moreover have "resolvedUnder s2"
      unfolding resolvedUnder_def m(1)
    proof (intro allI impI)
      fix c
      assume c: "stateAt s2 c = Some binTreeStateResolved"
      from c have ci: "c \<noteq> i" by (auto simp: m(4))
      show "\<exists>m x. link ?t m c \<and> stateAt s2 m = Some x \<and> x \<noteq> binTreeStateUnknown"
      proof (cases "?R c")
        case True
        from reachesThrough_last [OF True] obtain m' where
          m': "link ?t m' c" "m' = i \<or> ?R m'" by blast
        from m'(2) show ?thesis
        proof
          assume "m' = i"
          then have "stateAt s2 m' = Some (boolState val)" by (simp add: m(4))
          with m'(1) show ?thesis by (intro exI [of _ m'] exI [of _ "boolState val"]) simp
        next
          assume "?R m'"
          then have "stateAt s2 m' = Some binTreeStateResolved"
            using inW(2) [of m'] by (simp add: m(4))
          with m'(1) show ?thesis
            by (intro exI [of _ m'] exI [of _ binTreeStateResolved]) simp
        qed
      next
        case False
        with c ci have "stateAt state c = Some binTreeStateResolved" by (simp add: m(4))
        with ru obtain m' x where
          m': "link ?t m' c" "stateAt state m' = Some x" "x \<noteq> binTreeStateUnknown"
          unfolding resolvedUnder_def by blast
        from keep [OF m'(2,3)] m' show ?thesis by auto
      qed
    qed
    ultimately show ?thesis by blast
  qed
  from dn show ?case
  proof (cases rule: MarkNode_Done_cases)
    case stop
    note m = mark_then_resolve [OF v len stop(1,2)]
    show ?thesis using after [OF stop(1,2)] m by simp
  next
    case (leave defNode pNode)
    note m = mark_then_resolve [OF v len leave(1,2)]
    show ?thesis using after [OF leave(1,2)] m by simp
  next
    case (up s2 defNode pNode v')
    note m = mark_then_resolve [OF v len up(1,2)]
    have a: "neorWaited s2" "resolvedUnder s2" using after [OF up(1,2)] by auto
    have pv: "\<forall>n. nodeAt (tree s2) (ParentIdx defNode) = Some n \<and> NodeType n = nodeTypeNeor \<longrightarrow>
        Left n \<notin> unknownNodes s2 \<and> Right n \<notin> unknownNodes s2"
      using up(6,7) checkDecision_Neor_MarkAs [of pNode s2 v']
      by (auto simp: unknownNodes_iff)
    have "neorWaited s' \<and> resolvedUnder s' \<and> tree s' = tree s2
          \<and> length (data s') = length (tree s2)"
      using step.IH [OF up(1-7) _ _ _ a pv up(8)] v lc m by simp
    then show ?thesis using m by simp
  qed
qed

lemma markAll_waiting:
  assumes "Validate t = Valid" and "linksConsistent t"
  shows "tree state = t \<Longrightarrow> length (data state) = length t \<Longrightarrow>
         neorWaited state \<Longrightarrow> resolvedUnder state \<Longrightarrow>
         \<forall>(i, v) \<in> set calls. isLeafAt t i \<Longrightarrow>
         markAll state calls = Done s \<Longrightarrow> neorWaited s \<and> resolvedUnder s"
proof (induction calls arbitrary: state)
  case Nil
  then show ?case by simp
next
  case (Cons call calls)
  obtain i v where call: "call = (i, v)" by (cases call)
  from Cons.prems(6) obtain s1 where
    s1: "MarkNode state i v = Done s1" "markAll s1 calls = Done s"
    by (auto simp: call split: outcome.splits)
  from Cons.prems(5) have leaf: "isLeafAt t i" by (simp add: call)
  have "\<forall>n. nodeAt (tree state) i = Some n \<and> NodeType n = nodeTypeNeor \<longrightarrow>
        Left n \<notin> unknownNodes state \<and> Right n \<notin> unknownNodes state"
    using leaf Cons.prems(1) by (auto simp: isLeafAt_def nodeType_defs)
  from MarkNode_keeps_waiting [OF _ _ _ Cons.prems(3,4) this s1(1)] assms Cons.prems(1,2)
  have "neorWaited s1 \<and> resolvedUnder s1 \<and> tree s1 = t \<and> length (data s1) = length t"
    by simp
  then show ?case using Cons.IH [OF _ _ _ _ _ s1(2)] Cons.prems(5) by simp
qed

lemma NewState_waiting: "neorWaited (NewState t)" "resolvedUnder (NewState t)"
  by (auto simp: neorWaited_def resolvedUnder_def NewState_def stateAt_def)

text \<open>
  A \<open>Resolved\<close> node has a node above it that was decided: following the parent indices
  from it leads through \<open>Resolved\<close> nodes to a node that is \<open>True\<close> or \<open>False\<close>.
\<close>

lemma resolved_below_decided:
  assumes v: "Validate t = Valid" and lc: "linksConsistent t"
    and tr: "tree s = t" and ru: "resolvedUnder s"
  shows "stateAt s c = Some binTreeStateResolved \<Longrightarrow>
         \<exists>a. a \<noteq> c \<and> atOrBelow t a c
            \<and> (stateAt s a = Some binTreeStateTrue \<or> stateAt s a = Some binTreeStateFalse)"
proof (induction "nat c" arbitrary: c rule: less_induct)
  case less
  from ru less.prems obtain m x where
    m: "link t m c" "stateAt s m = Some x" "x \<noteq> binTreeStateUnknown"
    unfolding resolvedUnder_def tr by blast
  from link_less [OF v lc m(1)] have mc: "m < c" .
  from m(1) have m0: "0 \<le> m" by (auto simp: link_def nodeAt_def split: if_splits)
  from linksConsistent_parent [OF lc m(1)] obtain cn where
    cn: "nodeAt t c = Some cn" "ParentIdx cn = m" by blast
  have up1: "atOrBelow t a c" if "atOrBelow t a m" for a
    using cn that by (auto intro: atOrBelow.up)
  show ?case
  proof (cases "x = binTreeStateResolved")
    case True
    from mc m0 have "nat m < nat c" by linarith
    from less.hyps [OF this] m(2) True obtain a where
      a: "a \<noteq> m" "atOrBelow t a m"
        "stateAt s a = Some binTreeStateTrue \<or> stateAt s a = Some binTreeStateFalse"
      by auto
    from atOrBelow_le [OF v a(2)] mc have "a \<noteq> c" by simp
    with a up1 show ?thesis by blast
  next
    case False
    with m(3) have "x = binTreeStateTrue \<or> x = binTreeStateFalse" by (cases x) auto
    with m(2) mc up1 [OF atOrBelow.self] show ?thesis by (intro exI [of _ m]) auto
  qed
qed

lemma checkNode_Neor_waits:
  assumes "nodeAt (tree st) k = Some n" and "NodeType n = nodeTypeNeor"
    and "stateAt st (Left n) = Some binTreeStateUnknown
         \<or> (stateAt st (Left n) \<noteq> None \<and> stateAt st (Right n) = Some binTreeStateUnknown)"
  shows "checkNode st k = Done st"
  using assms
  by (auto simp: checkNode_unfold checkDecision_def nodeType_defs)

text \<open>
  C2, amended: over a tree that \<open>Validate\<close> accepts and whose links agree with its parent
  indices, after any run of \<open>MarkNode\<close> calls on leaves from a new state in which every
  call returned:
  a \<open>Neor\<close> node is \<open>Unknown\<close> as long as one of its children is;
  once neither child is \<open>Unknown\<close>, the node is \<open>True\<close> if a child is \<open>True\<close> and \<open>False\<close>
  otherwise, unless it is \<open>Resolved\<close>, and it is \<open>Resolved\<close> only below a node that has
  been decided \<open>True\<close> or \<open>False\<close>, whose walk cut it off;
  a \<open>Neor\<close> node that is \<open>True\<close> or \<open>False\<close> has two children that are each \<open>True\<close> or
  \<open>False\<close>, so that it was decided after both and resolved neither;
  and in any state of the tree, \<open>checkNode\<close> on a \<open>Neor\<close> node that reads \<open>Unknown\<close> for a
  child returns with the state as it is, whatever the other child is.
\<close>

theorem Neor_waits_for_both_children:
  assumes "Validate t = Valid" and "linksConsistent t"
    and "\<forall>(i, v) \<in> set calls. isLeafAt t i"
    and "markAll (NewState t) calls = Done s"
    and "nodeAt t k = Some n" and "NodeType n = nodeTypeNeor"
  shows "(stateAt s (Left n) = Some binTreeStateUnknown
          \<or> stateAt s (Right n) = Some binTreeStateUnknown \<longrightarrow>
            stateAt s k = Some binTreeStateUnknown)
       \<and> (stateAt s (Left n) \<noteq> Some binTreeStateUnknown
          \<and> stateAt s (Right n) \<noteq> Some binTreeStateUnknown \<longrightarrow>
            stateAt s k =
                Some (if stateAt s (Left n) = Some binTreeStateTrue
                         \<or> stateAt s (Right n) = Some binTreeStateTrue
                      then binTreeStateTrue else binTreeStateFalse)
            \<or> stateAt s k = Some binTreeStateResolved
              \<and> (\<exists>a. a \<noteq> k \<and> atOrBelow t a k
                    \<and> (stateAt s a = Some binTreeStateTrue
                       \<or> stateAt s a = Some binTreeStateFalse)))
       \<and> (stateAt s k = Some binTreeStateTrue \<or> stateAt s k = Some binTreeStateFalse \<longrightarrow>
            (stateAt s (Left n) = Some binTreeStateTrue
             \<or> stateAt s (Left n) = Some binTreeStateFalse)
            \<and> (stateAt s (Right n) = Some binTreeStateTrue
               \<or> stateAt s (Right n) = Some binTreeStateFalse))
       \<and> (\<forall>st. tree st = t
              \<and> (stateAt st (Left n) = Some binTreeStateUnknown
                 \<or> (stateAt st (Left n) \<noteq> None
                    \<and> stateAt st (Right n) = Some binTreeStateUnknown)) \<longrightarrow>
              checkNode st k = Done st)"
proof -
  from markAll_invariant [OF assms(1,2) NewState_invariant [OF assms(1)] assms(3,4)]
  have inv: "tree s = t" "closedDown s" "neorSettled s k" "length (data s) = length t"
    by (simp_all add: evaluationInvariant_def)
  have "neorWaited s \<and> resolvedUnder s"
    by (rule markAll_waiting [OF assms(1,2) _ _ NewState_waiting assms(3,4)])
       (simp_all add: NewState_def)
  then have nw: "neorWaited s" and ru: "resolvedUnder s" by auto
  have links: "link t k (Left n)" "link t k (Right n)"
    using assms(5,6) by (simp_all add: Neor_links)
  have first: "stateAt s k = Some binTreeStateUnknown"
    if "stateAt s (Left n) = Some binTreeStateUnknown
        \<or> stateAt s (Right n) = Some binTreeStateUnknown"
    using that inv(1,2) links by (auto simp: closedDown_def unknownNodes_iff)
  have second: "stateAt s k =
                Some (if stateAt s (Left n) = Some binTreeStateTrue
                         \<or> stateAt s (Right n) = Some binTreeStateTrue
                      then binTreeStateTrue else binTreeStateFalse)
            \<or> stateAt s k = Some binTreeStateResolved
              \<and> (\<exists>a. a \<noteq> k \<and> atOrBelow t a k
                    \<and> (stateAt s a = Some binTreeStateTrue
                       \<or> stateAt s a = Some binTreeStateFalse))"
    if "stateAt s (Left n) \<noteq> Some binTreeStateUnknown"
      "stateAt s (Right n) \<noteq> Some binTreeStateUnknown"
  proof -
    from that inv(1,3) assms(5,6) have
      "stateAt s k = Some binTreeStateResolved
       \<or> stateAt s k =
                Some (if stateAt s (Left n) = Some binTreeStateTrue
                         \<or> stateAt s (Right n) = Some binTreeStateTrue
                      then binTreeStateTrue else binTreeStateFalse)"
      by (auto simp: neorSettled_def unknownNodes_iff boolState_def)
    then show ?thesis
      using resolved_below_decided [OF assms(1,2) inv(1) ru, of k] by blast
  qed
  have decided: "stateAt s c = Some binTreeStateTrue \<or> stateAt s c = Some binTreeStateFalse"
    if k: "stateAt s k = Some binTreeStateTrue \<or> stateAt s k = Some binTreeStateFalse"
      and l: "link t k c" for c
  proof -
    from l assms(5) have "isChild n c" by (simp add: link_def)
    from Validate_child_range [OF assms(1,5) this] inv(4) obtain y where
      y: "stateAt s c = Some y" by (auto simp: stateAt_def)
    have "y \<noteq> binTreeStateUnknown"
      using k l y inv(1,2) by (auto simp: closedDown_def unknownNodes_iff)
    moreover have "y \<noteq> binTreeStateResolved"
    proof
      assume "y = binTreeStateResolved"
      with nw assms(5,6) l y inv(1) have "stateAt s k = Some binTreeStateResolved"
        unfolding neorWaited_def by blast
      with k show False by auto
    qed
    ultimately show ?thesis using y by (cases y) auto
  qed
  have waits: "checkNode st k = Done st"
    if "tree st = t" "stateAt st (Left n) = Some binTreeStateUnknown
         \<or> (stateAt st (Left n) \<noteq> None \<and> stateAt st (Right n) = Some binTreeStateUnknown)"
    for st
    using checkNode_Neor_waits [of st k n] that assms(5,6) by simp
  from first second decided [OF _ links(1)] decided [OF _ links(2)] waits
  show ?thesis by blast
qed

theorem Neor_waits_for_both_children_witness:
  "Validate orLeafNeor = Valid \<and> linksConsistent orLeafNeor
   \<and> isLeafAt orLeafNeor 3 \<and> isLeafAt orLeafNeor 4
   \<and> markAll (NewState orLeafNeor) [(3, False)]
       = Done ((NewState orLeafNeor)\<lparr>data :=
           [binTreeStateUnknown, binTreeStateUnknown, binTreeStateUnknown, binTreeStateFalse,
            binTreeStateUnknown]\<rparr>)
   \<and> markAll (NewState orLeafNeor) [(3, False), (4, True)]
       = Done ((NewState orLeafNeor)\<lparr>data :=
           [binTreeStateTrue, binTreeStateResolved, binTreeStateTrue, binTreeStateFalse,
            binTreeStateTrue]\<rparr>)
   \<and> stateAt ((NewState orLeafNeor)\<lparr>data :=
           [binTreeStateTrue, binTreeStateResolved, binTreeStateTrue, binTreeStateFalse,
            binTreeStateTrue]\<rparr>) 2 = Some binTreeStateTrue"
proof -
  have lv: "\<forall>(i, v) \<in> set [(3, False), (4, True)]. isLeafAt orLeafNeor i"
    using orLeafNeor_facts(6,7) by simp
  have r1: "markAll (NewState orLeafNeor) [(3, False)]
       = Done ((NewState orLeafNeor)\<lparr>data :=
           [binTreeStateUnknown, binTreeStateUnknown, binTreeStateUnknown, binTreeStateFalse,
            binTreeStateUnknown]\<rparr>)"
    by (simp add: orLeafNeor_def run_simps)
  have r2: "markAll (NewState orLeafNeor) [(3, False), (4, True)]
       = Done ((NewState orLeafNeor)\<lparr>data :=
           [binTreeStateTrue, binTreeStateResolved, binTreeStateTrue, binTreeStateFalse,
            binTreeStateTrue]\<rparr>)"
    by (simp add: orLeafNeor_def run_simps)
  from Neor_waits_for_both_children
    [OF orLeafNeor_facts(1,2) lv r2 orLeafNeor_facts(3,4)]
  have "stateAt ((NewState orLeafNeor)\<lparr>data :=
           [binTreeStateTrue, binTreeStateResolved, binTreeStateTrue, binTreeStateFalse,
            binTreeStateTrue]\<rparr>) 2 = Some binTreeStateTrue"
    by (simp add: NewBinTreeNode_def stateAt_def)
  with orLeafNeor_facts(1,2,6,7) r1 r2 show ?thesis by blast
qed

text \<open>
  The claim as it is written fails when the other branch of an \<open>Or\<close> above decides
  first: marking leaf 1 \<open>true\<close> resolves the root, and the walk down from the root sets
  the \<open>Neor\<close> node 2 and both its children to \<open>Resolved\<close>. Neither child is \<open>Unknown\<close>
  and none is \<open>True\<close>, and the \<open>Neor\<close> node is \<open>Resolved\<close>, not \<open>False\<close>.
\<close>

theorem Neor_resolved_not_false:
  "Validate orLeafNeor = Valid \<and> linksConsistent orLeafNeor \<and> isLeafAt orLeafNeor 1
   \<and> nodeAt orLeafNeor 2 = Some (NewBinTreeNode nodeTypeNeor 0 3 4)
   \<and> markAll (NewState orLeafNeor) [(1, True)]
       = Done ((NewState orLeafNeor)\<lparr>data :=
           [binTreeStateTrue, binTreeStateTrue, binTreeStateResolved, binTreeStateResolved,
            binTreeStateResolved]\<rparr>)
   \<and> stateAt (outcomeState (markAll (NewState orLeafNeor) [(1, True)])) 3
       = Some binTreeStateResolved
   \<and> stateAt (outcomeState (markAll (NewState orLeafNeor) [(1, True)])) 4
       = Some binTreeStateResolved
   \<and> stateAt (outcomeState (markAll (NewState orLeafNeor) [(1, True)])) 2
       = Some binTreeStateResolved"
proof -
  have r: "markAll (NewState orLeafNeor) [(1, True)]
       = Done ((NewState orLeafNeor)\<lparr>data :=
           [binTreeStateTrue, binTreeStateTrue, binTreeStateResolved, binTreeStateResolved,
            binTreeStateResolved]\<rparr>)"
    by (simp add: orLeafNeor_def run_simps)
  have "stateAt (outcomeState (markAll (NewState orLeafNeor) [(1, True)])) j
        = Some binTreeStateResolved" if "j = 2 \<or> j = 3 \<or> j = 4" for j
    using that by (simp only: r outcomeState.simps) (auto simp: stateAt_def)
  then show ?thesis using orLeafNeor_facts r by simp
qed


subsection \<open>Monotonicity, and the operations that set a state back\<close>

lemma copyLoop_copies:
  assumes "i + length items \<le> length (data state)"
  shows "\<exists>s'. copyLoop state items i = Done s' \<and> tree s' = tree state
           \<and> stallIndex s' = stallIndex state \<and> length (data s') = length (data state)
           \<and> (\<forall>k < length (data state).
                 data s' ! k = (if i \<le> k \<and> k < i + length items then items ! (k - i)
                                else data state ! k))"
  using assms
proof (induction items arbitrary: state i)
  case Nil
  then show ?case by auto
next
  case (Cons item rest)
  let ?s1 = "state\<lparr>data := (data state)[i := item]\<rparr>"
  from Cons.prems have i: "i < length (data state)" by simp
  from Cons.prems have "Suc i + length rest \<le> length (data ?s1)" by simp
  from Cons.IH [OF this] obtain s' where
    s': "copyLoop ?s1 rest (Suc i) = Done s'" "tree s' = tree state"
      "stallIndex s' = stallIndex state" "length (data s') = length (data state)"
      "\<forall>k < length (data state).
          data s' ! k = (if Suc i \<le> k \<and> k < Suc i + length rest then rest ! (k - Suc i)
                         else (data state)[i := item] ! k)"
    by auto
  have "data s' ! k = (if i \<le> k \<and> k < i + length (item # rest) then (item # rest) ! (k - i)
                       else data state ! k)"
    if k: "k < length (data state)" for k
  proof (cases "k = i")
    case True
    then show ?thesis using s'(5) k by simp
  next
    case False
    then show ?thesis using s'(5) k by (auto simp: nth_Cons' Suc_le_eq)
  qed
  then show ?case using s'(1-4) i by simp
qed

lemma CopyFrom_copies:
  assumes "length (data ostate) \<le> length (data state)"
  shows "\<exists>s'. CopyFrom True state ostate = Done s' \<and> tree s' = tree state
           \<and> stallIndex s' = stallIndex state \<and> length (data s') = length (data state)
           \<and> (\<forall>j. stateAt s' j = (if j < int (length (data ostate)) then stateAt ostate j
                                   else stateAt state j))"
proof -
  from copyLoop_copies [of 0 "data ostate" state] assms obtain s' where
    s': "copyLoop state (data ostate) 0 = Done s'" "tree s' = tree state"
      "stallIndex s' = stallIndex state" "length (data s') = length (data state)"
      "\<forall>k < length (data state).
          data s' ! k = (if k < length (data ostate) then data ostate ! k else data state ! k)"
    by auto
  have "stateAt s' j = (if j < int (length (data ostate)) then stateAt ostate j
                        else stateAt state j)" for j
    using s'(4,5) assms by (auto simp: stateAt_def)
  then show ?thesis using s'(1-4) by (simp add: CopyFrom_def)
qed

text \<open>
  \<open>ResetNode\<close> over a tree that \<open>Validate\<close> accepts and whose links agree with the parent
  indices: the links lead to greater indices, so the walk returns; it sets the node and
  every node that a path of links reaches from it to \<open>Unknown\<close>, and nothing else.
\<close>

lemma link_iff:
  "nodeAt t i = Some defNode \<Longrightarrow>
     link t i c \<longleftrightarrow>
       (binTreeNodeTypeHasLeft (NodeType defNode) \<and> c = Left defNode
        \<or> binTreeNodeTypeHasRight (NodeType defNode) \<and> c = Right defNode)"
  by (simp add: link_def isChild_def)

lemma resetNodeRecursive_returns:
  assumes v: "Validate t = Valid" and lc: "linksConsistent t"
  shows "tree state = t \<Longrightarrow> length (data state) = length t \<Longrightarrow> 0 \<le> i \<Longrightarrow>
         i < int (length t) \<Longrightarrow>
         \<exists>s'. resetNodeRecursive state i = Some (Done s') \<and> tree s' = t
           \<and> stallIndex s' = stallIndex state \<and> length (data s') = length t
           \<and> (\<forall>k. stateAt s' k =
                 (if k = i \<or> reachesThrough t UNIV i k then Some binTreeStateUnknown
                  else stateAt state k))"
proof (induction "length t - nat i" arbitrary: state i rule: less_induct)
  case less
  note tr = less.prems(1) and len = less.prems(2) and i0 = less.prems(3) and i1 = less.prems(4)
  let ?s0 = "setState state i binTreeStateUnknown"
  let ?R = "\<lambda>a k. k = a \<or> reachesThrough t UNIV a k"
  obtain old where old: "stateAt state i = Some old"
    using i0 i1 len by (simp add: stateAt_def)
  obtain defNode where n: "nodeAt t i = Some defNode"
    using i0 i1 by (simp add: nodeAt_def)
  have s0: "stateAt ?s0 k = (if k = i then Some binTreeStateUnknown else stateAt state k)" for k
    using i0 i1 len by (simp add: stateAt_setState)
  have child: "\<exists>s'. resetNodeRecursive st c = Some (Done s') \<and> tree s' = t
           \<and> stallIndex s' = stallIndex st \<and> length (data s') = length t
           \<and> (\<forall>k. stateAt s' k = (if ?R c k then Some binTreeStateUnknown else stateAt st k))"
    if l: "link t i c" and st: "tree st = t" "length (data st) = length t" for c st
  proof -
    from l n have "isChild defNode c" by (simp add: link_def)
    from Validate_child_range [OF v n this] have c: "0 < c" "c < int (length t)" by auto
    from link_less [OF v lc l] have "i < c" .
    with c i0 have "length t - nat c < length t - nat i" by linarith
    from less.hyps [OF this st] c show ?thesis by simp
  qed
  define hasL where "hasL = binTreeNodeTypeHasLeft (NodeType defNode)"
  define hasR where "hasR = binTreeNodeTypeHasRight (NodeType defNode)"
  have unf: "resetNodeRecursive state i =
      Option.bind (if hasL then resetNodeRecursive ?s0 (Left defNode) else Some (Done ?s0))
        (\<lambda>o1. case o1 of
            Panicked e st \<Rightarrow> Some (Panicked e st)
          | Done state1 \<Rightarrow>
              if hasR then resetNodeRecursive state1 (Right defNode) else Some (Done state1))"
    using old n tr by (subst resetNodeRecursive.simps) (simp add: hasL_def hasR_def)
  have reach: "reachesThrough t UNIV i k \<longleftrightarrow>
      (hasL \<and> ?R (Left defNode) k) \<or> (hasR \<and> ?R (Right defNode) k)" for k
    by (subst reachesThrough_unfold) (auto simp: link_iff [OF n] hasL_def hasR_def)
  obtain s1 where s1:
    "(if hasL then resetNodeRecursive ?s0 (Left defNode) else Some (Done ?s0)) = Some (Done s1)"
    "tree s1 = t" "stallIndex s1 = stallIndex state" "length (data s1) = length t"
    "\<forall>k. stateAt s1 k = (if k = i \<or> (hasL \<and> ?R (Left defNode) k)
                         then Some binTreeStateUnknown else stateAt state k)"
  proof (cases hasL)
    case True
    then have "link t i (Left defNode)" by (simp add: link_iff [OF n] hasL_def)
    from child [OF this, of ?s0] tr len obtain s' where
      "resetNodeRecursive ?s0 (Left defNode) = Some (Done s')" "tree s' = t"
      "stallIndex s' = stallIndex state" "length (data s') = length t"
      "\<forall>k. stateAt s' k = (if ?R (Left defNode) k then Some binTreeStateUnknown
                           else stateAt ?s0 k)"
      by auto
    then show ?thesis using True by (intro that [of s']) (auto simp: s0)
  next
    case False
    then show ?thesis using tr len by (intro that [of ?s0]) (auto simp: s0)
  qed
  obtain s2 where s2:
    "(if hasR then resetNodeRecursive s1 (Right defNode) else Some (Done s1)) = Some (Done s2)"
    "tree s2 = t" "stallIndex s2 = stallIndex state" "length (data s2) = length t"
    "\<forall>k. stateAt s2 k = (if hasR \<and> ?R (Right defNode) k
                         then Some binTreeStateUnknown else stateAt s1 k)"
  proof (cases hasR)
    case True
    then have "link t i (Right defNode)" by (simp add: link_iff [OF n] hasR_def)
    from child [OF this s1(2,4)] obtain s' where
      "resetNodeRecursive s1 (Right defNode) = Some (Done s')" "tree s' = t"
      "stallIndex s' = stallIndex s1" "length (data s') = length t"
      "\<forall>k. stateAt s' k = (if ?R (Right defNode) k then Some binTreeStateUnknown
                           else stateAt s1 k)"
      by auto
    then show ?thesis using True s1(3) by (intro that [of s']) auto
  next
    case False
    then show ?thesis using s1 by (intro that [of s1]) auto
  qed
  have "resetNodeRecursive state i = Some (Done s2)"
    using s1(1) s2(1) by (simp add: unf)
  moreover have "stateAt s2 k =
      (if k = i \<or> reachesThrough t UNIV i k then Some binTreeStateUnknown else stateAt state k)"
    for k
    using s2(5) s1(5) by (auto simp: reach)
  ultimately show ?case using s2(2-4) by blast
qed

lemma stalledState_tree:
  "tree stalledState = notNotLeaf" "length (data stalledState) = length (tree stalledState)"
  by (simp_all add: stalledState_def notNotLeaf_def)

lemma stalledState_reached:
  "MarkNode (fst (SetStallIndex (NewState notNotLeaf) 1)) 2 False = Done stalledState"
  by (simp add: SetStallIndex_def stalledState_def notNotLeaf_def run_simps)

text \<open>
  C3 (monotonicity), amended. An entry that is not \<open>Unknown\<close> is the same after
  \<open>MarkNode\<close>, \<open>checkNode\<close>, \<open>resolveRecursive\<close>, \<open>Resolve\<close> and \<open>SetStallIndex\<close>, whether
  the call returns or panics. Three methods set it back. \<open>Reset\<close> does. \<open>ResetNode\<close> does
  for the node it is called on, whenever it returns; over a tree that \<open>Validate\<close> accepts
  and whose links agree with the parent indices it does return, and it sets back the node
  it is called on and the nodes that a path of links reaches from it, and leaves every
  other entry as it was. And \<open>CopyFrom\<close> from a state of the same tree overwrites the
  entry with the entry of that state, \<open>Unknown\<close> included. These are all the methods of
  \<open>binTreeState\<close> that write to the state.
\<close>

theorem nonUnknown_state_kept:
  assumes "stateAt state j = Some x" and "x \<noteq> binTreeStateUnknown"
  shows "stateAt (outcomeState (MarkNode state i v)) j = Some x
       \<and> stateAt (outcomeState (checkNode state i)) j = Some x
       \<and> stateAt (outcomeState (resolveRecursive state i)) j = Some x
       \<and> stateAt (outcomeState (Resolve state)) j = Some x
       \<and> stateAt (fst (SetStallIndex state i)) j = Some x
       \<and> stateAt (Reset state) j = Some binTreeStateUnknown
       \<and> (\<forall>s'. ResetNode state j = Some (Done s') \<longrightarrow>
              stateAt s' j = Some binTreeStateUnknown)
       \<and> (Validate (tree state) = Valid \<and> linksConsistent (tree state)
            \<and> length (data state) = length (tree state)
            \<and> 0 \<le> r \<and> r < int (length (tree state)) \<longrightarrow>
          (\<exists>s'. ResetNode state r = Some (Done s')
             \<and> stateAt s' j =
                 (if j = r \<or> reachesThrough (tree state) UNIV r j
                  then Some binTreeStateUnknown else Some x)))
       \<and> (length (data ostate) \<le> length (data state) \<longrightarrow>
          (\<exists>s'. CopyFrom True state ostate = Done s'
             \<and> stateAt s' j =
                 (if j < int (length (data ostate)) then stateAt ostate j else Some x)))"
proof -
  have "stateAt (Reset state) j = Some binTreeStateUnknown"
    using assms(1) by (auto simp: Reset_def stateAt_def split: if_splits)
  moreover have "stateAt (fst (SetStallIndex state i)) j = Some x"
    using assms(1) by (auto simp: SetStallIndex_def stateAt_def split: if_splits)
  moreover have "\<forall>s'. ResetNode state j = Some (Done s') \<longrightarrow>
              stateAt s' j = Some binTreeStateUnknown"
    using resetNodeRecursive_resets [of state j] by (auto simp: ResetNode_def)
  moreover have "\<exists>s'. ResetNode state r = Some (Done s')
             \<and> stateAt s' j =
                 (if j = r \<or> reachesThrough (tree state) UNIV r j
                  then Some binTreeStateUnknown else Some x)"
    if "Validate (tree state) = Valid" "linksConsistent (tree state)"
      "length (data state) = length (tree state)" "0 \<le> r" "r < int (length (tree state))"
    using resetNodeRecursive_returns [OF that(1,2) refl that(3,4,5)] assms(1)
    by (auto simp: ResetNode_def)
  moreover have "\<exists>s'. CopyFrom True state ostate = Done s'
             \<and> stateAt s' j =
                 (if j < int (length (data ostate)) then stateAt ostate j else Some x)"
    if "length (data ostate) \<le> length (data state)"
    using CopyFrom_copies [OF that] assms(1) by auto
  ultimately show ?thesis
    using assms MarkNode_preserves [of state i v] checkNode_preserves [of state i]
      resolveRecursive_preserves [of state i] Resolve_preserves [of state]
    by (simp add: preserves_def)
qed

theorem nonUnknown_state_kept_witness:
  "stateAt stalledState 1 = Some binTreeStateTrue
   \<and> Validate (tree stalledState) = Valid \<and> linksConsistent (tree stalledState)
   \<and> length (data stalledState) = length (tree stalledState)
   \<and> length (data (NewState (tree stalledState))) \<le> length (data stalledState)
   \<and> stateAt (outcomeState (MarkNode stalledState 0 True)) 1 = Some binTreeStateTrue
   \<and> stateAt (outcomeState (Resolve stalledState)) 1 = Some binTreeStateTrue
   \<and> ResetNode stalledState 1 = Some (Done (stalledState\<lparr>data :=
        [binTreeStateUnknown, binTreeStateUnknown, binTreeStateUnknown]\<rparr>))
   \<and> CopyFrom True stalledState (NewState (tree stalledState))
       = Done (stalledState\<lparr>data :=
        [binTreeStateUnknown, binTreeStateUnknown, binTreeStateUnknown]\<rparr>)
   \<and> stateAt (stalledState\<lparr>data :=
        [binTreeStateUnknown, binTreeStateUnknown, binTreeStateUnknown]\<rparr>) 1
       = Some binTreeStateUnknown"
proof -
  have h: "stateAt stalledState 1 = Some binTreeStateTrue"
    by (simp add: stalledState_def stateAt_def)
  have t: "Validate (tree stalledState) = Valid" "linksConsistent (tree stalledState)"
    "length (data stalledState) = length (tree stalledState)"
    by (simp_all add: stalledState_tree Validate_notNotLeaf linksConsistent_notNotLeaf)
  have l: "length (data (NewState (tree stalledState))) \<le> length (data stalledState)"
    by (simp add: NewState_def stalledState_def)
  have r: "ResetNode stalledState 1 = Some (Done (stalledState\<lparr>data :=
        [binTreeStateUnknown, binTreeStateUnknown, binTreeStateUnknown]\<rparr>))"
    by (simp add: ResetNode_def stalledState_def resetNodeRecursive.simps run_simps)
  have c: "CopyFrom True stalledState (NewState (tree stalledState))
       = Done (stalledState\<lparr>data :=
        [binTreeStateUnknown, binTreeStateUnknown, binTreeStateUnknown]\<rparr>)"
    by (simp add: CopyFrom_def stalledState_def NewState_def)
  from nonUnknown_state_kept [OF h, where i = 0 and v = True and r = 1
      and ostate = "NewState (tree stalledState)"] h t l r c
  show ?thesis by simp
qed

text \<open>
  The claim says that only \<open>Reset\<close> and \<open>ResetNode\<close> set a state back to \<open>Unknown\<close>.
  \<open>stalledState\<close> is reached from a new state of \<open>not (not leaf)\<close> by \<open>SetStallIndex 1\<close>
  and \<open>MarkNode 2 false\<close>; node 1 is \<open>True\<close> in it. \<open>CopyFrom\<close> from a new state of the
  same tree returns, and node 1 is \<open>Unknown\<close> again.
\<close>

theorem CopyFrom_sets_back_to_Unknown:
  "MarkNode (fst (SetStallIndex (NewState notNotLeaf) 1)) 2 False = Done stalledState
   \<and> tree stalledState = notNotLeaf
   \<and> stateAt stalledState 1 = Some binTreeStateTrue
   \<and> CopyFrom True stalledState (NewState notNotLeaf)
       = Done (stalledState\<lparr>data :=
            [binTreeStateUnknown, binTreeStateUnknown, binTreeStateUnknown]\<rparr>)
   \<and> stateAt (outcomeState (CopyFrom True stalledState (NewState notNotLeaf))) 1
       = Some binTreeStateUnknown"
proof -
  have c: "CopyFrom True stalledState (NewState notNotLeaf)
       = Done (stalledState\<lparr>data :=
            [binTreeStateUnknown, binTreeStateUnknown, binTreeStateUnknown]\<rparr>)"
    by (simp add: CopyFrom_def stalledState_def NewState_def notNotLeaf_def)
  have "stateAt (outcomeState (CopyFrom True stalledState (NewState notNotLeaf))) 1
       = Some binTreeStateUnknown"
    by (simp only: c outcomeState.simps) (simp add: stateAt_def)
  moreover have "stateAt stalledState 1 = Some binTreeStateTrue"
    by (simp add: stalledState_def stateAt_def)
  ultimately show ?thesis using c stalledState_reached stalledState_tree(1) by simp
qed


section \<open>The surface syntax tree and its lowering (filterExprParser.go)\<close>

subsection \<open>Expressions, errors and what lies outside the file\<close>

text \<open>
  A \<open>float64\<close> is held as its 64 bits; nothing here computes with one.
\<close>

type_synonym float64 = "64 word"

text \<open>The dynamic value inside a \<open>ValueExpr\<close> (Go's \<open>interface{}\<close>).\<close>

datatype goValue =
  StringValue string | IntValue int | FloatValue float64 | BoolValue bool | NilValue

text \<open>
  Modelled from the spec: the \<open>Expression\<close> types are declared outside the two source
  files. The variants are those of section 3.4 of the specification, with the fields
  that \<open>filterExprParser.go\<close> fills in; \<open>NilExpression\<close> is the nil interface value that
  the error returns carry. \<open>OrExpr\<close> and \<open>AndExpr\<close> are slices, and \<open>FieldExpr\<close> holds
  the path.
\<close>

datatype Expression =
  NilExpression
  | OrExpr "Expression list"
  | AndExpr "Expression list"
  | NotExpr Expression
  | TrueExpr
  | FalseExpr
  | ValueExpr goValue
  | FieldExpr "string list"
  | FuncExpr string "Expression list"
  | EqualsExpr Expression Expression
  | NotEqualsExpr Expression Expression
  | GreaterThanExpr Expression Expression
  | GreaterEqualsExpr Expression Expression
  | LessThanExpr Expression Expression
  | LessEqualsExpr Expression Expression
  | ExistsExpr Expression
  | NotExistsExpr Expression
  | LikeExpr Expression Expression
  | RegexExpr string
  | PcreExpr string

text \<open>
  The error values: the three package-level errors the file names, an error made by
  \<open>fmt.Errorf\<close> with its message, and an error of the regular-expression backend.
\<close>

datatype error =
  ErrorMalformedParenthesis
  | ErrorNotFound
  | ErrorEmptyInput
  | Errorf string
  | BackendError string

text \<open>
  What the file uses and does not define: the three ISO-8601 patterns (as the predicate
  \<open>MatchString\<close>), \<open>tokenIsPcreValueType\<close>, \<open>MakePcreExpression\<close>, and the text that
  \<open>fmt.Sprintf("%v", x)\<close> gives for an \<open>int\<close> and for a \<open>float64\<close>. They are parameters.
\<close>

record externals =
  iso8601Year :: "string \<Rightarrow> bool"
  iso8601YearAndMonth :: "string \<Rightarrow> bool"
  iso8601CompleteDate :: "string \<Rightarrow> bool"
  tokenIsPcreValueType :: "string \<Rightarrow> bool"
  MakePcreExpression :: "string \<Rightarrow> Expression \<times> error option"
  formatInt :: "int \<Rightarrow> string"
  formatFloat :: "float64 \<Rightarrow> string"

datatype FEStringType =
  FEStringType (EscapedStrVal: string) (CharVal: string) (RawStr: string) (StrValue: string)

datatype FEOnePathFuncNoArgName = FEOnePathFuncNoArgName (Meta: "bool option")

datatype FEOnePathFuncNoArg =
  FEOnePathFuncNoArg (OnePathFuncNoArgName: "FEOnePathFuncNoArgName option")

datatype FEOnePathFuncExpr = FEOnePathFuncExpr (OnePathFuncNoArg: "FEOnePathFuncNoArg option")

datatype FEArrayIndex = FEArrayIndex (ArrayIndex: string)

datatype FEOnePath =
  FEOnePath (OnePathFunc: "FEOnePathFuncExpr option") (StrValue: "FEStringType option")
    (ArrayIndexes: "FEArrayIndex list")

datatype FEMathArithmeticOp =
  FEMathArithmeticOp (Addition: "bool option") (Subtraction: "bool option")
    (Multiply: "bool option") (Division: "bool option") (Modulo: "bool option")

datatype FEMathValue = FEMathValue (IntValue: "int option") (FloatValue: "float64 option")

text \<open>\<open>Path\<close> is a slice of pointers; the parser fills it with structures, never with nil.\<close>

datatype FEField =
  FEField (MathNeg: "bool option") (Path: "FEOnePath list")
    (MathOp: "FEMathArithmeticOp option") (MathValue: "FEMathValue option")

text \<open>
  Modelled from the spec: the name constants are declared outside the two source files.
  The function names are those of section 3.4, \<open>META\<close> is the path function of the
  grammar.
\<close>

definition OperatorMeta :: string where "OperatorMeta = ''META''"
definition MathFuncNeg :: string where "MathFuncNeg = ''neg''"
definition MathFuncAdd :: string where "MathFuncAdd = ''add''"
definition MathFuncSub :: string where "MathFuncSub = ''sub''"
definition MathFuncMul :: string where "MathFuncMul = ''mul''"
definition MathFuncDiv :: string where "MathFuncDiv = ''div''"
definition MathFuncMod :: string where "MathFuncMod = ''mod''"

subsection \<open>Field paths\<close>

text \<open>
  A method that reads a field through a nil pointer panics; \<open>None\<close> is that panic.
  \<open>strings.Join\<close> is \<open>joinStrings\<close>.
\<close>

fun joinStrings :: "string list \<Rightarrow> string \<Rightarrow> string" where
  "joinStrings [] sep = []"
| "joinStrings [x] sep = x"
| "joinStrings (x # y # ys) sep = x @ sep @ joinStrings (y # ys) sep"

definition FEStringType_String :: "FEStringType \<Rightarrow> string" where
  "FEStringType_String f =
     (if length (CharVal f) > 0 then CharVal f
      else if length (RawStr f) > 0 then RawStr f
      else if length (FEStringType.StrValue f) > 0 then FEStringType.StrValue f
      else if length (EscapedStrVal f) > 0 then EscapedStrVal f
      else [])"

definition FEOnePathFuncNoArgName_String :: "FEOnePathFuncNoArgName \<Rightarrow> string" where
  "FEOnePathFuncNoArgName_String n =
     (if Meta n \<noteq> None \<and> Meta n = Some True then OperatorMeta
      else ''?? (FEOnePathFuncNoArgName)'')"

definition FEOnePathFuncNoArg_String :: "FEOnePathFuncNoArg \<Rightarrow> string" where
  "FEOnePathFuncNoArg_String na =
     (case OnePathFuncNoArgName na of
        Some name \<Rightarrow> FEOnePathFuncNoArgName_String name @ ''()''
      | None \<Rightarrow> ''?? (FEOnePathFuncNoArg)'')"

definition FEOnePathFuncExpr_String :: "FEOnePathFuncExpr \<Rightarrow> string" where
  "FEOnePathFuncExpr_String e =
     (case OnePathFuncNoArg e of
        Some na \<Rightarrow> FEOnePathFuncNoArg_String na
      | None \<Rightarrow> ''?? FEOnePathFuncExpr'')"

definition FEArrayIndex_String :: "FEArrayIndex \<Rightarrow> string" where
  "FEArrayIndex_String i = ''['' @ ArrayIndex i @ '']''"

text \<open>
  \<open>FEOnePath.String\<close> calls \<open>feop.StrValue.String()\<close> when \<open>OnePathFunc\<close> is nil, whether
  \<open>StrValue\<close> is nil or not; on nil that reads a field through a nil pointer.
\<close>

definition FEOnePath_String :: "FEOnePath \<Rightarrow> string option" where
  "FEOnePath_String feop =
     do {
       first \<leftarrow>
         (case OnePathFunc feop of
            Some pathFunc \<Rightarrow> Some (FEOnePathFuncExpr_String pathFunc)
          | None \<Rightarrow>
              (case FEOnePath.StrValue feop of
                 None \<Rightarrow> None
               | Some str \<Rightarrow>
                   if length (FEStringType_String str) > 0 then Some (FEStringType_String str)
                   else Some []));
       Some (joinStrings (first # map FEArrayIndex_String (ArrayIndexes feop)) '' '')
     }"

text \<open>
  In the last case of \<open>OutputOnePath\<close> both pointers are nil, and the error message is
  made from \<open>f.String()\<close>.
\<close>

definition FEOnePath_OutputOnePath ::
  "FEOnePath \<Rightarrow> (string \<times> string list \<times> error option) option" where
  "FEOnePath_OutputOnePath f =
     (let arrayIdx = map FEArrayIndex_String (ArrayIndexes f) in
      case FEOnePath.StrValue f of
        Some str \<Rightarrow> Some (FEStringType_String str, arrayIdx, None)
      | None \<Rightarrow>
          (case OnePathFunc f of
             Some pathFunc \<Rightarrow> Some (FEOnePathFuncExpr_String pathFunc, arrayIdx, None)
           | None \<Rightarrow>
               do {
                 text \<leftarrow> FEOnePath_String f;
                 Some ([], arrayIdx, Some (Errorf (''Invalid internal FEOnePath: '' @ text)))
               }))"

subsection \<open>Field expressions\<close>

definition FEMathArithmeticOp_OutputExpression ::
  "FEMathArithmeticOp \<Rightarrow> Expression \<times> error option" where
  "FEMathArithmeticOp_OutputExpression f =
     (if Addition f \<noteq> None then (FuncExpr MathFuncAdd [], None)
      else if Subtraction f \<noteq> None then (FuncExpr MathFuncSub [], None)
      else if Multiply f \<noteq> None then (FuncExpr MathFuncMul [], None)
      else if Division f \<noteq> None then (FuncExpr MathFuncDiv [], None)
      else if Modulo f \<noteq> None then (FuncExpr MathFuncMod [], None)
      else (NilExpression,
            Some (Errorf ''Invalid FEMathArithmeticOp ?? (FEMathArithmeticOp)'')))"

definition FEMathValue_OutputExpression :: "FEMathValue \<Rightarrow> Expression \<times> error option" where
  "FEMathValue_OutputExpression f =
     (case FEMathValue.IntValue f of
        Some i \<Rightarrow> (ValueExpr (goValue.IntValue i), None)
      | None \<Rightarrow>
          (case FEMathValue.FloatValue f of
             Some x \<Rightarrow> (ValueExpr (goValue.FloatValue x), None)
           | None \<Rightarrow> (NilExpression, Some (Errorf ''Invalid FEMathValue ?? (FEMathValue)''))))"

text \<open>
  \<open>ShouldHandleSpecialValue\<close>: with exactly one path segment, the three patterns are
  tried in turn on \<open>f.Path[0].String()\<close>, which is computed anew for each.
\<close>

definition FEField_ShouldHandleSpecialValue :: "externals \<Rightarrow> FEField \<Rightarrow> bool option" where
  "FEField_ShouldHandleSpecialValue ext f =
     (if length (Path f) = 1 then
        do {
          s1 \<leftarrow> FEOnePath_String (Path f ! 0);
          if iso8601Year ext s1 then Some True
          else do {
            s2 \<leftarrow> FEOnePath_String (Path f ! 0);
            if iso8601YearAndMonth ext s2 then Some True
            else do {
              s3 \<leftarrow> FEOnePath_String (Path f ! 0);
              if iso8601CompleteDate ext s3 then Some True else Some False
            }
          }
        }
      else Some False)"

definition FEField_OutputExpressionSpecialAsValue ::
  "FEField \<Rightarrow> (Expression \<times> error option) option" where
  "FEField_OutputExpressionSpecialAsValue f =
     (case Path f of
        [] \<Rightarrow> None
      | p # _ \<Rightarrow> do { text \<leftarrow> FEOnePath_String p; Some (ValueExpr (StringValue text), None) })"

text \<open>
  The loop over \<open>f.Path\<close> of \<open>FEField.OutputExpression\<close>: it appends each segment's name
  and then its array indexes to the path collected so far, and stops at an error.
\<close>

fun collectPath ::
  "FEOnePath list \<Rightarrow> string list \<Rightarrow> (string list \<times> error option) option" where
  "collectPath [] outPath = Some (outPath, None)"
| "collectPath (onePath # rest) outPath =
     do {
       (pathName, arrays, err) \<leftarrow> FEOnePath_OutputOnePath onePath;
       (case err of
          Some e \<Rightarrow> Some (outPath, Some e)
        | None \<Rightarrow> collectPath rest (outPath @ [pathName] @ arrays))
     }"

text \<open>
  \<open>mathOpExpr.(FuncExpr)\<close> is a type assertion, and \<open>f.MathValue.OutputExpression()\<close>
  reads through \<open>f.MathValue\<close>: both panic where they fail.
\<close>

definition FEField_OutputExpression ::
  "externals \<Rightarrow> FEField \<Rightarrow> (Expression \<times> error option) option" where
  "FEField_OutputExpression ext f =
     do {
       special \<leftarrow> FEField_ShouldHandleSpecialValue ext f;
       if special then FEField_OutputExpressionSpecialAsValue f
       else do {
         (outPath, err) \<leftarrow> collectPath (Path f) [];
         (case err of
            Some e \<Rightarrow> Some (FieldExpr outPath, Some e)
          | None \<Rightarrow>
              if MathNeg f \<noteq> None \<or> (MathOp f \<noteq> None \<and> MathValue f \<noteq> None) then
                (case MathOp f of
                   None \<Rightarrow> Some (FuncExpr MathFuncNeg [FieldExpr outPath], None)
                 | Some mathOp \<Rightarrow>
                     (case FEMathArithmeticOp_OutputExpression mathOp of
                        (_, Some e) \<Rightarrow> Some (NilExpression, Some e)
                      | (FuncExpr funcName params, None) \<Rightarrow>
                          (let params1 =
                                 (if MathNeg f \<noteq> None
                                  then params @ [FuncExpr MathFuncNeg [FieldExpr outPath]]
                                  else params @ [FieldExpr outPath])
                           in case MathValue f of
                                None \<Rightarrow> None
                              | Some mathValue \<Rightarrow>
                                  (case FEMathValue_OutputExpression mathValue of
                                     (_, Some e) \<Rightarrow> Some (NilExpression, Some e)
                                   | (valueExpr, None) \<Rightarrow>
                                       Some (FuncExpr funcName (params1 @ [valueExpr]), None)))
                      | (_, None) \<Rightarrow> None))
              else Some (FieldExpr outPath, None))
       }
     }"

subsection \<open>The other structures of the surface syntax\<close>

text \<open>
  One datatype for each struct of the file, a pointer field as an \<open>option\<close>. A field
  whose Go name is a constant of HOL has a prime.
\<close>

datatype FEValue =
  FEValue (StrValue: "string option") (IntValue: "int option") (FloatValue: "float64 option")

datatype FEBoolean =
  FEBoolean (TVal: "bool option") (TVal1: "bool option") (FVal: "bool option")
    (FVal1: "bool option")

datatype FEOpChar =
  FEOpChar (Not': "bool option") (Equal: "bool option") (LessThan: "bool option")
    (GreaterThan: "bool option")

datatype FECompareOp = FECompareOp (OpChars0: "FEOpChar option") (OpChars1: "FEOpChar option")

datatype FECheckOp =
  FECheckOp (Not': "bool option") (Null: "bool option") (Missing: "bool option")

datatype FEConstFuncNoArgName = FEConstFuncNoArgName (Pi: "bool option") (E: "bool option")

datatype FEConstFuncNoArg =
  FEConstFuncNoArg (ConstFuncNoArgName: "FEConstFuncNoArgName option")

datatype FEConstFuncOneArgName =
  FEConstFuncOneArgName (Abs: "bool option") (Acos: "bool option") (Asin: "bool option")
    (Atan: "bool option") (Ceil: "bool option") (Cos: "bool option") (Date: "bool option")
    (Degrees: "bool option") (Exp: "bool option") (Floor: "bool option") (Log: "bool option")
    (Ln: "bool option") (Sine: "bool option") (Tangent: "bool option")
    (Radians: "bool option") (Round: "bool option") (Sqrt: "bool option")

datatype FEConstFuncTwoArgsName =
  FEConstFuncTwoArgsName (Atan2: "bool option") (Power': "bool option")

datatype FEConstFuncExpression =
  FEConstFuncExpression (ConstFuncNoArg: "FEConstFuncNoArg option")
    (ConstFuncOneArg: "FEConstFuncOneArg option")
    (ConstFuncTwoArgs: "FEConstFuncTwoArgs option")
and FEConstFuncOneArg =
  FEConstFuncOneArg (ConstFuncOneArgName: "FEConstFuncOneArgName option")
    (Argument: "FEConstFuncArgument option")
and FEConstFuncTwoArgs =
  FEConstFuncTwoArgs (ConstFuncTwoArgsName: "FEConstFuncTwoArgsName option")
    (Argument0: "FEConstFuncArgument option") (Argument1: "FEConstFuncArgument option")
and FEConstFuncArgument =
  FEConstFuncArgument (SubFunc: "FEConstFuncExpression option") (Field: "FEField option")
    (Argument: "FEValue option")

datatype FEConstFuncArgumentRHS =
  FEConstFuncArgumentRHS (SubFunc: "FEConstFuncExpression option")
    (Argument: "FEValue option")

datatype FEBooleanFuncTwoArgsName = FEBooleanFuncTwoArgsName (RegexContains: "bool option")

datatype FEBooleanFuncTwoArgs =
  FEBooleanFuncTwoArgs (BooleanFuncTwoArgsName: "FEBooleanFuncTwoArgsName option")
    (Argument0: "FEConstFuncArgument option") (Argument1: "FEConstFuncArgumentRHS option")

datatype FEExistsClause = FEExistsClause (Field: "FEField option")

datatype FEBooleanFuncExpr =
  FEBooleanFuncExpr (BooleanFuncTwoArgs: "FEBooleanFuncTwoArgs option")
    (ExistsClause: "FEExistsClause option")

datatype FEBooleanExpr =
  FEBooleanExpr (BooleanVal: "FEBoolean option") (BooleanFunc: "FEBooleanFuncExpr option")

datatype FELhs =
  FELhs (Func: "FEConstFuncExpression option") (Bool: "FEBoolean option")
    (Field: "FEField option") (Value: "FEValue option")

datatype FERhs =
  FERhs (Func: "FEConstFuncExpression option") (Bool: "FEBoolean option")
    (Value: "FEValue option") (Field: "FEField option")

datatype FEOperand =
  FEOperand (BooleanExpr: "FEBooleanExpr option") (LHS: "FELhs option")
    (Op: "FECompareOp option") (RHS: "FERhs option") (CheckOp: "FECheckOp option")

datatype FECondition = FECondition (Not': "FECondition option") (Operand: "FEOperand option")

datatype FEOpenParen = FEOpenParen (Parens: string)

datatype FECloseParen = FECloseParen (Parens: string)

text \<open>
  The slices of pointers \<open>OrConditions\<close>, \<open>AndConditions\<close> and \<open>SubFilterExpr\<close> hold the
  structures the parser made, never nil.
\<close>

datatype FEAndCondition =
  FEAndCondition (OpenParens: "FEOpenParen list") (OrConditions: "FECondition list")
    (CloseParens: "FECloseParen list")

datatype FilterExpression =
  FilterExpression (AndConditions: "FEAndCondition list")
    (SubFilterExpr: "FilterExpression list")

subsection \<open>Texts of operands\<close>

text \<open>
  Modelled from the spec: the operator and function name constants are declared outside
  the two source files. The comparison operators and the check operators are the lexemes
  of section 6.3, the upper-case function names those of the grammar in section 4.4.1, the
  lower-case ones those of section 3.4. \<open>math.Pi\<close> and \<open>math.E\<close> are the bits of the two
  \<open>float64\<close> constants.
\<close>

definition OperatorEquals :: string where "OperatorEquals = ''=''"
definition OperatorNotEquals :: string where "OperatorNotEquals = ''!=''"
definition OperatorGreaterThan :: string where "OperatorGreaterThan = ''>''"
definition OperatorGreaterThanEq :: string where "OperatorGreaterThanEq = ''>=''"
definition OperatorLessThan :: string where "OperatorLessThan = ''<''"
definition OperatorLessThanEq :: string where "OperatorLessThanEq = ''<=''"
definition OperatorMissing :: string where "OperatorMissing = ''IS MISSING''"
definition OperatorNotMissing :: string where "OperatorNotMissing = ''IS NOT MISSING''"
definition OperatorNull :: string where "OperatorNull = ''IS NULL''"
definition OperatorNotNull :: string where "OperatorNotNull = ''IS NOT NULL''"

definition FuncAbs :: string where "FuncAbs = ''ABS''"
definition FuncAcos :: string where "FuncAcos = ''ACOS''"
definition FuncAsin :: string where "FuncAsin = ''ASIN''"
definition FuncAtan :: string where "FuncAtan = ''ATAN''"
definition FuncAtan2 :: string where "FuncAtan2 = ''ATAN2''"
definition FuncCeil :: string where "FuncCeil = ''CEIL''"
definition FuncCos :: string where "FuncCos = ''COS''"
definition FuncDate :: string where "FuncDate = ''DATE''"
definition FuncDeg :: string where "FuncDeg = ''DEGREES''"
definition FuncExp :: string where "FuncExp = ''EXP''"
definition FuncFloor :: string where "FuncFloor = ''FLOOR''"
definition FuncLog :: string where "FuncLog = ''LOG''"
definition FuncLn :: string where "FuncLn = ''LN''"
definition FuncPower :: string where "FuncPower = ''POW''"
definition FuncRad :: string where "FuncRad = ''RADIANS''"
definition FuncRegexp :: string where "FuncRegexp = ''REGEXP_CONTAINS''"
definition FuncRound :: string where "FuncRound = ''ROUND''"
definition FuncSin :: string where "FuncSin = ''SIN''"
definition FuncSqrt :: string where "FuncSqrt = ''SQRT''"
definition FuncTan :: string where "FuncTan = ''TAN''"

definition MathFuncAbs :: string where "MathFuncAbs = ''abs''"
definition MathFuncAcos :: string where "MathFuncAcos = ''acos''"
definition MathFuncAsin :: string where "MathFuncAsin = ''asin''"
definition MathFuncAtan :: string where "MathFuncAtan = ''atan''"
definition MathFuncAtan2 :: string where "MathFuncAtan2 = ''atan2''"
definition MathFuncCeil :: string where "MathFuncCeil = ''ceil''"
definition MathFuncCos :: string where "MathFuncCos = ''cos''"
definition DateFunc :: string where "DateFunc = ''date''"
definition MathFuncDegrees :: string where "MathFuncDegrees = ''degrees''"
definition MathFuncExp :: string where "MathFuncExp = ''exp''"
definition MathFuncFloor :: string where "MathFuncFloor = ''floor''"
definition MathFuncLog :: string where "MathFuncLog = ''log''"
definition MathFuncLn :: string where "MathFuncLn = ''ln''"
definition MathFuncPow :: string where "MathFuncPow = ''pow''"
definition MathFuncRadians :: string where "MathFuncRadians = ''radians''"
definition MathFuncRound :: string where "MathFuncRound = ''round''"
definition MathFuncSin :: string where "MathFuncSin = ''sin''"
definition MathFuncSqrt :: string where "MathFuncSqrt = ''sqrt''"
definition MathFuncTan :: string where "MathFuncTan = ''tan''"

definition mathPi :: float64 where "mathPi = 0x400921FB54442D18"
definition mathE :: float64 where "mathE = 0x4005BF0A8B145769"

text \<open>\<open>set p\<close>: the test \<open>p != nil && *p == true\<close> on a pointer to a \<open>bool\<close>.\<close>

definition isSet :: "bool option \<Rightarrow> bool" where
  "isSet p \<longleftrightarrow> p \<noteq> None \<and> p = Some True"

definition FEMathArithmeticOp_String :: "FEMathArithmeticOp \<Rightarrow> string" where
  "FEMathArithmeticOp_String f =
     (if Addition f \<noteq> None then ''+''
      else if Subtraction f \<noteq> None then ''-''
      else if Multiply f \<noteq> None then ''*''
      else if Division f \<noteq> None then ''/''
      else if Modulo f \<noteq> None then ''%''
      else ''?? (FEMathArithmeticOp)'')"

definition FEMathValue_String :: "externals \<Rightarrow> FEMathValue \<Rightarrow> string" where
  "FEMathValue_String ext f =
     (case FEMathValue.IntValue f of
        Some i \<Rightarrow> formatInt ext i
      | None \<Rightarrow>
          (case FEMathValue.FloatValue f of
             Some x \<Rightarrow> formatFloat ext x
           | None \<Rightarrow> ''?? (FEMathValue)''))"

text \<open>The loop of \<open>FEField.String\<close> over the path segments.\<close>

fun pathStrings :: "FEOnePath list \<Rightarrow> string list option" where
  "pathStrings [] = Some []"
| "pathStrings (onePath # rest) =
     do { s \<leftarrow> FEOnePath_String onePath; ss \<leftarrow> pathStrings rest; Some (s # ss) }"

definition FEField_String :: "externals \<Rightarrow> FEField \<Rightarrow> string option" where
  "FEField_String ext fef =
     do {
       output \<leftarrow> pathStrings (Path fef);
       let fieldOutput = joinStrings output ''.'';
       let fieldOutput = (if MathNeg fef \<noteq> None then ''-'' @ fieldOutput else fieldOutput);
       let outerOutput = [fieldOutput];
       let outerOutput =
             (case MathOp fef of
                Some mathOp \<Rightarrow> outerOutput @ [FEMathArithmeticOp_String mathOp]
              | None \<Rightarrow> outerOutput);
       let outerOutput =
             (case MathValue fef of
                Some mathValue \<Rightarrow> outerOutput @ [FEMathValue_String ext mathValue]
              | None \<Rightarrow> outerOutput);
       Some (joinStrings outerOutput '' '')
     }"

definition FEValue_String :: "externals \<Rightarrow> FEValue \<Rightarrow> string" where
  "FEValue_String ext fev =
     (case FEValue.StrValue fev of
        Some s \<Rightarrow> s
      | None \<Rightarrow>
          (case FEValue.IntValue fev of
             Some i \<Rightarrow> formatInt ext i
           | None \<Rightarrow>
               (case FEValue.FloatValue fev of
                  Some x \<Rightarrow> formatFloat ext x
                | None \<Rightarrow> ''?? (FEValue)'')))"

definition FEOpChar_String :: "FEOpChar \<Rightarrow> string" where
  "FEOpChar_String f =
     (if FEOpChar.Not' f \<noteq> None then ''!''
      else if Equal f \<noteq> None then ''=''
      else if LessThan f \<noteq> None then ''<''
      else if GreaterThan f \<noteq> None then ''>''
      else [])"

definition FEConstFuncNoArgName_String :: "FEConstFuncNoArgName \<Rightarrow> string" where
  "FEConstFuncNoArgName_String n =
     (if isSet (E n) then ''E''
      else if isSet (Pi n) then ''PI''
      else ''?? (FEConstFuncNoArgName)'')"

definition FEConstFuncNoArg_String :: "FEConstFuncNoArg \<Rightarrow> string" where
  "FEConstFuncNoArg_String f =
     (case ConstFuncNoArgName f of
        Some name \<Rightarrow> FEConstFuncNoArgName_String name @ ''()''
      | None \<Rightarrow> ''?? (FEConstFuncNoArg)'')"

definition FEConstFuncOneArgName_String :: "FEConstFuncOneArgName \<Rightarrow> string" where
  "FEConstFuncOneArgName_String arg =
     (if isSet (Abs arg) then FuncAbs
      else if isSet (Acos arg) then FuncAcos
      else if isSet (Asin arg) then FuncAsin
      else if isSet (Atan arg) then FuncAtan
      else if isSet (Ceil arg) then FuncCeil
      else if isSet (Cos arg) then FuncCos
      else if isSet (Date arg) then FuncDate
      else if isSet (Degrees arg) then FuncDeg
      else if isSet (Exp arg) then FuncExp
      else if isSet (Floor arg) then FuncFloor
      else if isSet (Log arg) then FuncLog
      else if isSet (Ln arg) then FuncLn
      else if isSet (Sine arg) then FuncSin
      else if isSet (Tangent arg) then FuncTan
      else if isSet (Radians arg) then FuncRad
      else if isSet (Round arg) then FuncRound
      else if isSet (Sqrt arg) then FuncSqrt
      else ''?? (FEConstFuncOneArgName)'')"

definition FEConstFuncTwoArgsName_String :: "FEConstFuncTwoArgsName \<Rightarrow> string" where
  "FEConstFuncTwoArgsName_String arg =
     (if isSet (Atan2 arg) then FuncAtan2
      else if isSet (Power' arg) then FuncPower
      else ''?? (FEConstFuncTwoArgsName)'')"

text \<open>
  The four \<open>String\<close> methods of the constant functions call each other.
  \<open>fmt.Sprintf("%v( %v )", a, b)\<close> is written out.
\<close>

fun FEConstFuncExpression_String :: "externals \<Rightarrow> FEConstFuncExpression \<Rightarrow> string option"
  and FEConstFuncOneArg_String :: "externals \<Rightarrow> FEConstFuncOneArg \<Rightarrow> string option"
  and FEConstFuncTwoArgs_String :: "externals \<Rightarrow> FEConstFuncTwoArgs \<Rightarrow> string option"
  and FEConstFuncArgument_String :: "externals \<Rightarrow> FEConstFuncArgument \<Rightarrow> string option"
  where
  "FEConstFuncExpression_String ext (FEConstFuncExpression noArg oneArg twoArgs) =
     (case noArg of
        Some f \<Rightarrow> Some (FEConstFuncNoArg_String f)
      | None \<Rightarrow>
          (case oneArg of
             Some f \<Rightarrow> FEConstFuncOneArg_String ext f
           | None \<Rightarrow>
               (case twoArgs of
                  Some f \<Rightarrow> FEConstFuncTwoArgs_String ext f
                | None \<Rightarrow> Some ''?? (FEConstFuncExpression)'')))"
| "FEConstFuncOneArg_String ext (FEConstFuncOneArg name argument) =
     (case name of
        None \<Rightarrow> Some ''?? (FEConstFuncOneArg)''
      | Some n \<Rightarrow>
          (case argument of
             None \<Rightarrow> Some ''?? (FEConstFuncOneArg)''
           | Some a \<Rightarrow>
               do {
                 s \<leftarrow> FEConstFuncArgument_String ext a;
                 Some (FEConstFuncOneArgName_String n @ ''( '' @ s @ '' )'')
               }))"
| "FEConstFuncTwoArgs_String ext (FEConstFuncTwoArgs name argument0 argument1) =
     (case name of
        None \<Rightarrow> Some ''?? (FEConstFuncTwoArgs)''
      | Some n \<Rightarrow>
          (case argument0 of
             None \<Rightarrow> Some ''?? (FEConstFuncTwoArgs)''
           | Some a0 \<Rightarrow>
               (case argument1 of
                  None \<Rightarrow> Some ''?? (FEConstFuncTwoArgs)''
                | Some a1 \<Rightarrow>
                    do {
                      s0 \<leftarrow> FEConstFuncArgument_String ext a0;
                      s1 \<leftarrow> FEConstFuncArgument_String ext a1;
                      Some (FEConstFuncTwoArgsName_String n @ ''( '' @ s0 @ '' , '' @ s1
                            @ '' )'')
                    })))"
| "FEConstFuncArgument_String ext (FEConstFuncArgument subFunc field argument) =
     (case argument of
        Some v \<Rightarrow> Some (FEValue_String ext v)
      | None \<Rightarrow>
          (case subFunc of
             Some f \<Rightarrow> FEConstFuncExpression_String ext f
           | None \<Rightarrow>
               (case field of
                  Some f \<Rightarrow> FEField_String ext f
                | None \<Rightarrow> Some ''?? (FEConstFuncArgument)'')))"

definition FEConstFuncArgumentRHS_String ::
  "externals \<Rightarrow> FEConstFuncArgumentRHS \<Rightarrow> string option" where
  "FEConstFuncArgumentRHS_String ext arg =
     (case FEConstFuncArgumentRHS.Argument arg of
        Some v \<Rightarrow> Some (FEValue_String ext v)
      | None \<Rightarrow>
          (case FEConstFuncArgumentRHS.SubFunc arg of
             Some f \<Rightarrow> FEConstFuncExpression_String ext f
           | None \<Rightarrow> Some ''?? (FEConstFuncArgument)''))"

definition FEBooleanFuncTwoArgsName_String :: "FEBooleanFuncTwoArgsName \<Rightarrow> string" where
  "FEBooleanFuncTwoArgsName_String n =
     (if isSet (RegexContains n) then FuncRegexp else ''?? (FEBooleanFuncTwoArgsName)'')"

subsection \<open>Lowering of values, booleans and operators\<close>

text \<open>
  A result is the pair that the Go method returns, the expression and the error (\<open>None\<close>
  for a nil error); around it, \<open>None\<close> is a panic. Where an error message is made from
  \<open>f.String()\<close> in a branch that fixes what \<open>String\<close> returns, the text is written out.
\<close>

definition FEValue_OutputExpression :: "externals \<Rightarrow> FEValue \<Rightarrow> Expression \<times> error option" where
  "FEValue_OutputExpression ext f =
     (case FEValue.StrValue f of
        Some s \<Rightarrow> (ValueExpr (StringValue s), None)
      | None \<Rightarrow>
          (case FEValue.IntValue f of
             Some i \<Rightarrow> (ValueExpr (goValue.IntValue i), None)
           | None \<Rightarrow>
               (case FEValue.FloatValue f of
                  Some x \<Rightarrow> (ValueExpr (goValue.FloatValue x), None)
                | None \<Rightarrow>
                    (ValueExpr NilValue,
                     Some (Errorf (''Invalid FEValue: '' @ FEValue_String ext f))))))"

definition GetBool :: "FEBoolean \<Rightarrow> bool" where
  "GetBool feb =
     (if isSet (TVal feb) then True
      else if isSet (TVal1 feb) then True
      else if isSet (FVal feb) then False
      else if isSet (FVal1 feb) then False
      else False)"

definition IsSet :: "FEBoolean \<Rightarrow> bool" where
  "IsSet feb \<longleftrightarrow> TVal feb \<noteq> None \<or> TVal1 feb \<noteq> None \<or> FVal feb \<noteq> None \<or> FVal1 feb \<noteq> None"

definition FEBoolean_OutputExpression :: "FEBoolean \<Rightarrow> bool \<Rightarrow> Expression \<times> error option" where
  "FEBoolean_OutputExpression f asValue =
     (if \<not> IsSet f then (NilExpression, Some (Errorf ''Invalid FEBoolean (not set)''))
      else if GetBool f = True then
        (if asValue then (ValueExpr (BoolValue True), None) else (TrueExpr, None))
      else
        (if asValue then (ValueExpr (BoolValue False), None) else (FalseExpr, None)))"

text \<open>
  \<open>opHas sel p\<close>: the test \<open>p != nil && p.sel != nil\<close> on a pointer to an \<open>FEOpChar\<close>.
\<close>

definition opHas :: "(FEOpChar \<Rightarrow> bool option) \<Rightarrow> FEOpChar option \<Rightarrow> bool" where
  "opHas sel p = (case p of None \<Rightarrow> False | Some c \<Rightarrow> sel c \<noteq> None)"

definition IsEqual :: "FECompareOp \<Rightarrow> bool" where
  "IsEqual feo =
     (let singleEq = (opHas Equal (OpChars0 feo) \<and> OpChars1 feo = None);
          doubleEq = (opHas Equal (OpChars0 feo) \<and> opHas Equal (OpChars1 feo))
      in singleEq \<or> doubleEq)"

definition IsNotEqual :: "FECompareOp \<Rightarrow> bool" where
  "IsNotEqual feo =
     (let notEqual0 = (opHas FEOpChar.Not' (OpChars0 feo) \<and> opHas Equal (OpChars1 feo));
          notEqual1 = (opHas LessThan (OpChars0 feo) \<and> opHas GreaterThan (OpChars1 feo))
      in notEqual0 \<or> notEqual1)"

definition IsGreaterThan :: "FECompareOp \<Rightarrow> bool" where
  "IsGreaterThan feo \<longleftrightarrow> opHas GreaterThan (OpChars0 feo) \<and> OpChars1 feo = None"

definition IsGreaterThanOrEqualTo :: "FECompareOp \<Rightarrow> bool" where
  "IsGreaterThanOrEqualTo feo \<longleftrightarrow>
     opHas GreaterThan (OpChars0 feo) \<and> opHas Equal (OpChars1 feo)"

definition IsLessThan :: "FECompareOp \<Rightarrow> bool" where
  "IsLessThan feo \<longleftrightarrow> opHas LessThan (OpChars0 feo) \<and> OpChars1 feo = None"

definition IsLessThanOrEqualTo :: "FECompareOp \<Rightarrow> bool" where
  "IsLessThanOrEqualTo feo \<longleftrightarrow> opHas LessThan (OpChars0 feo) \<and> opHas Equal (OpChars1 feo)"

definition FECompareOp_String :: "FECompareOp \<Rightarrow> string" where
  "FECompareOp_String feo =
     (if IsEqual feo then OperatorEquals
      else if IsNotEqual feo then OperatorNotEquals
      else if IsGreaterThan feo then OperatorGreaterThan
      else if IsGreaterThanOrEqualTo feo then OperatorGreaterThanEq
      else if IsLessThan feo then OperatorLessThan
      else if IsLessThanOrEqualTo feo then OperatorLessThanEq
      else
        (let invalidOp = (case OpChars0 feo of Some c \<Rightarrow> [FEOpChar_String c] | None \<Rightarrow> []);
             invalidOp =
               (case OpChars1 feo of
                  Some c \<Rightarrow> invalidOp @ [FEOpChar_String c]
                | None \<Rightarrow> invalidOp)
         in if length invalidOp > 0 then joinStrings invalidOp []
            else ''?? (FECompareOp)''))"

definition FECompareOp_OutputExpression ::
  "FECompareOp \<Rightarrow> Expression \<Rightarrow> Expression \<Rightarrow> Expression \<times> error option" where
  "FECompareOp_OutputExpression f lhs rhs =
     (if IsEqual f then (EqualsExpr lhs rhs, None)
      else if IsNotEqual f then (NotEqualsExpr lhs rhs, None)
      else if IsGreaterThan f then (GreaterThanExpr lhs rhs, None)
      else if IsGreaterThanOrEqualTo f then (GreaterEqualsExpr lhs rhs, None)
      else if IsLessThan f then (LessThanExpr lhs rhs, None)
      else if IsLessThanOrEqualTo f then (LessEqualsExpr lhs rhs, None)
      else (NilExpression, Some (Errorf (''Invalid FECompareOp '' @ FECompareOp_String f))))"

definition isNot :: "FECheckOp \<Rightarrow> bool" where
  "isNot feco \<longleftrightarrow> isSet (FECheckOp.Not' feco)"

definition isMissingInternal :: "FECheckOp \<Rightarrow> bool" where
  "isMissingInternal feco \<longleftrightarrow> isSet (Missing feco)"

definition isNullInternal :: "FECheckOp \<Rightarrow> bool" where
  "isNullInternal feco \<longleftrightarrow> isSet (Null feco)"

definition IsMissing :: "FECheckOp \<Rightarrow> bool" where
  "IsMissing feco \<longleftrightarrow> \<not> isNot feco \<and> isMissingInternal feco"

definition IsNotMissing :: "FECheckOp \<Rightarrow> bool" where
  "IsNotMissing feco \<longleftrightarrow> isNot feco \<and> isMissingInternal feco"

definition IsNull :: "FECheckOp \<Rightarrow> bool" where
  "IsNull feco \<longleftrightarrow> \<not> isNot feco \<and> isNullInternal feco"

definition IsNotNull :: "FECheckOp \<Rightarrow> bool" where
  "IsNotNull feco \<longleftrightarrow> isNot feco \<and> isNullInternal feco"

definition FECheckOp_String :: "FECheckOp \<Rightarrow> string" where
  "FECheckOp_String feco =
     (if IsMissing feco then OperatorMissing
      else if IsNotMissing feco then OperatorNotMissing
      else if IsNull feco then OperatorNull
      else if IsNotNull feco then OperatorNotNull
      else ''?? (FECheckOp)'')"

definition FECheckOp_OutputExpression ::
  "FECheckOp \<Rightarrow> Expression \<Rightarrow> Expression \<times> error option" where
  "FECheckOp_OutputExpression f subExpr =
     (if IsNotMissing f then (ExistsExpr subExpr, None)
      else if IsMissing f then (NotExistsExpr subExpr, None)
      else if IsNull f then (EqualsExpr subExpr (ValueExpr NilValue), None)
      else if IsNotNull f then (NotExpr (EqualsExpr subExpr (ValueExpr NilValue)), None)
      else (NilExpression, Some (Errorf (''Invalid FECheckOp '' @ FECheckOp_String f))))"

subsection \<open>Lowering of the constant functions\<close>

definition FEConstFuncNoArg_OutputExpression ::
  "FEConstFuncNoArg \<Rightarrow> Expression \<times> error option" where
  "FEConstFuncNoArg_OutputExpression f =
     (case ConstFuncNoArgName f of
        None \<Rightarrow> (NilExpression, Some (Errorf ''Invalid FEConstFuncNoArg''))
      | Some name \<Rightarrow>
          if isSet (Pi name) then (ValueExpr (goValue.FloatValue mathPi), None)
          else if isSet (E name) then (ValueExpr (goValue.FloatValue mathE), None)
          else (NilExpression, Some (Errorf ''Invalid FEConstFuncNoArg'')))"

definition FEConstFuncOneArgName_OutputExpression ::
  "FEConstFuncOneArgName \<Rightarrow> string \<times> error option" where
  "FEConstFuncOneArgName_OutputExpression arg =
     (if isSet (Abs arg) then (MathFuncAbs, None)
      else if isSet (Acos arg) then (MathFuncAcos, None)
      else if isSet (Asin arg) then (MathFuncAsin, None)
      else if isSet (Atan arg) then (MathFuncAtan, None)
      else if isSet (Ceil arg) then (MathFuncCeil, None)
      else if isSet (Cos arg) then (MathFuncCos, None)
      else if isSet (Date arg) then (DateFunc, None)
      else if isSet (Degrees arg) then (MathFuncDegrees, None)
      else if isSet (Exp arg) then (MathFuncExp, None)
      else if isSet (Floor arg) then (MathFuncFloor, None)
      else if isSet (Log arg) then (MathFuncLog, None)
      else if isSet (Ln arg) then (MathFuncLn, None)
      else if isSet (Sine arg) then (MathFuncSin, None)
      else if isSet (Tangent arg) then (MathFuncTan, None)
      else if isSet (Radians arg) then (MathFuncRadians, None)
      else if isSet (Round arg) then (MathFuncRound, None)
      else if isSet (Sqrt arg) then (MathFuncSqrt, None)
      else (''?? (FEConstFuncOneArgName)'', Some ErrorNotFound))"

definition FEConstFuncTwoArgsName_OutputExpression ::
  "FEConstFuncTwoArgsName \<Rightarrow> string \<times> error option" where
  "FEConstFuncTwoArgsName_OutputExpression arg =
     (if isSet (Atan2 arg) then (MathFuncAtan2, None)
      else if isSet (Power' arg) then (MathFuncPow, None)
      else (''?? (FEConstFuncTwoArgsName)'', Some ErrorNotFound))"

text \<open>
  \<open>var outExpr FuncExpr\<close> is the function expression with the empty name and no
  parameters; the error returns carry it as it stands at that point.
\<close>

fun FEConstFuncExpression_OutputExpression ::
    "externals \<Rightarrow> FEConstFuncExpression \<Rightarrow> (Expression \<times> error option) option"
  and FEConstFuncOneArg_OutputExpression ::
    "externals \<Rightarrow> FEConstFuncOneArg \<Rightarrow> (Expression \<times> error option) option"
  and FEConstFuncTwoArgs_OutputExpression ::
    "externals \<Rightarrow> FEConstFuncTwoArgs \<Rightarrow> (Expression \<times> error option) option"
  and FEConstFuncArgument_OutputExpression ::
    "externals \<Rightarrow> FEConstFuncArgument \<Rightarrow> (Expression \<times> error option) option"
  where
  "FEConstFuncExpression_OutputExpression ext (FEConstFuncExpression noArg oneArg twoArgs) =
     (case noArg of
        Some f \<Rightarrow> Some (FEConstFuncNoArg_OutputExpression f)
      | None \<Rightarrow>
          (case oneArg of
             Some f \<Rightarrow> FEConstFuncOneArg_OutputExpression ext f
           | None \<Rightarrow>
               (case twoArgs of
                  Some f \<Rightarrow> FEConstFuncTwoArgs_OutputExpression ext f
                | None \<Rightarrow>
                    Some (NilExpression,
                          Some (Errorf ''Invalid FEConstFuncExpression ?? (FEConstFuncExpression)'')))))"
| "FEConstFuncOneArg_OutputExpression ext (FEConstFuncOneArg name argument) =
     (case name of
        None \<Rightarrow>
          Some (FuncExpr [] [], Some (Errorf ''Invalid FEConstFuncOneArg ?? (FEConstFuncOneArg)''))
      | Some n \<Rightarrow>
          (case argument of
             None \<Rightarrow>
               Some (FuncExpr [] [],
                     Some (Errorf ''Invalid FEConstFuncOneArg ?? (FEConstFuncOneArg)''))
           | Some a \<Rightarrow>
               (case FEConstFuncOneArgName_OutputExpression n of
                  (_, Some e) \<Rightarrow> Some (FuncExpr [] [], Some e)
                | (funcName, None) \<Rightarrow>
                    do {
                      (arg, err) \<leftarrow> FEConstFuncArgument_OutputExpression ext a;
                      (case err of
                         Some e \<Rightarrow> Some (FuncExpr funcName [], Some e)
                       | None \<Rightarrow> Some (FuncExpr funcName [arg], None))
                    })))"
| "FEConstFuncTwoArgs_OutputExpression ext (FEConstFuncTwoArgs name argument0 argument1) =
     (case name of
        None \<Rightarrow>
          Some (FuncExpr [] [],
                Some (Errorf ''Invalid FEConstFuncTwoArgs ?? (FEConstFuncTwoArgs)''))
      | Some n \<Rightarrow>
          (case argument0 of
             None \<Rightarrow>
               Some (FuncExpr [] [],
                     Some (Errorf ''Invalid FEConstFuncTwoArgs ?? (FEConstFuncTwoArgs)''))
           | Some a0 \<Rightarrow>
               (case argument1 of
                  None \<Rightarrow>
                    Some (FuncExpr [] [],
                          Some (Errorf ''Invalid FEConstFuncTwoArgs ?? (FEConstFuncTwoArgs)''))
                | Some a1 \<Rightarrow>
                    (case FEConstFuncTwoArgsName_OutputExpression n of
                       (_, Some e) \<Rightarrow> Some (FuncExpr [] [], Some e)
                     | (funcName, None) \<Rightarrow>
                         do {
                           (arg0, err0) \<leftarrow> FEConstFuncArgument_OutputExpression ext a0;
                           (case err0 of
                              Some e \<Rightarrow> Some (FuncExpr funcName [], Some e)
                            | None \<Rightarrow>
                                do {
                                  (arg1, err1) \<leftarrow> FEConstFuncArgument_OutputExpression ext a1;
                                  (case err1 of
                                     Some e \<Rightarrow> Some (FuncExpr funcName [], Some e)
                                   | None \<Rightarrow> Some (FuncExpr funcName [arg0, arg1], None))
                                })
                         }))))"
| "FEConstFuncArgument_OutputExpression ext (FEConstFuncArgument subFunc field argument) =
     (case argument of
        Some v \<Rightarrow> Some (FEValue_OutputExpression ext v)
      | None \<Rightarrow>
          (case field of
             Some f \<Rightarrow> FEField_OutputExpression ext f
           | None \<Rightarrow>
               (case subFunc of
                  Some f \<Rightarrow> FEConstFuncExpression_OutputExpression ext f
                | None \<Rightarrow>
                    Some (NilExpression,
                          Some (Errorf ''Invalid FEConstFuncArgument ?? (FEConstFuncArgument)'')))))"

definition FEConstFuncArgumentRHS_OutputExpression ::
  "externals \<Rightarrow> FEConstFuncArgumentRHS \<Rightarrow> (Expression \<times> error option) option" where
  "FEConstFuncArgumentRHS_OutputExpression ext f =
     (case FEConstFuncArgumentRHS.SubFunc f of
        Some g \<Rightarrow> FEConstFuncExpression_OutputExpression ext g
      | None \<Rightarrow>
          (case FEConstFuncArgumentRHS.Argument f of
             Some v \<Rightarrow> Some (FEValue_OutputExpression ext v)
           | None \<Rightarrow>
               Some (NilExpression,
                     Some (Errorf ''Invalid FEConstFuncArgumentRHS ?? (FEConstFuncArgument)''))))"

definition FEConstFuncArgumentRHS_OutputRegexExpression ::
  "externals \<Rightarrow> FEConstFuncArgumentRHS \<Rightarrow> (Expression \<times> error option) option" where
  "FEConstFuncArgumentRHS_OutputRegexExpression ext f =
     (case FEConstFuncArgumentRHS.Argument f of
        None \<Rightarrow>
          do {
            s \<leftarrow> FEConstFuncArgumentRHS_String ext f;
            Some (NilExpression,
                  Some (Errorf (''Invalid FEConstFuncArgumentRHS for regex expression '' @ s)))
          }
      | Some v \<Rightarrow>
          if tokenIsPcreValueType ext (FEValue_String ext v)
          then Some (MakePcreExpression ext (FEValue_String ext v))
          else Some (RegexExpr (FEValue_String ext v), None))"

subsection \<open>Lowering of the boolean functions and of operands\<close>

definition FEBooleanFuncTwoArgsName_OutputExpression ::
  "FEBooleanFuncTwoArgsName \<Rightarrow> Expression \<times> error option" where
  "FEBooleanFuncTwoArgsName_OutputExpression n =
     (if isSet (RegexContains n) then (LikeExpr NilExpression NilExpression, None)
      else (NilExpression, Some ErrorNotFound))"

text \<open>
  \<open>outputExpr.(LikeExpr)\<close> is a type assertion. In the last branch the message is made
  from \<open>f.BooleanFuncTwoArgsName.String()\<close>, which reads through the name pointer, nil
  or not.
\<close>

definition FEBooleanFuncTwoArgs_OutputExpression ::
  "externals \<Rightarrow> FEBooleanFuncTwoArgs \<Rightarrow> (Expression \<times> error option) option" where
  "FEBooleanFuncTwoArgs_OutputExpression ext f =
     (case BooleanFuncTwoArgsName f of
        None \<Rightarrow> None
      | Some name \<Rightarrow>
          if isSet (RegexContains name) \<and> FEBooleanFuncTwoArgs.Argument0 f \<noteq> None
             \<and> FEBooleanFuncTwoArgs.Argument1 f \<noteq> None
          then
            (case FEBooleanFuncTwoArgsName_OutputExpression name of
               (_, Some e) \<Rightarrow> Some (NilExpression, Some e)
             | (LikeExpr lhs rhs, None) \<Rightarrow>
                 do {
                   a0 \<leftarrow> FEBooleanFuncTwoArgs.Argument0 f;
                   (arg0, err0) \<leftarrow> FEConstFuncArgument_OutputExpression ext a0;
                   (case err0 of
                      Some e \<Rightarrow> Some (LikeExpr lhs rhs, Some e)
                    | None \<Rightarrow>
                        do {
                          a1 \<leftarrow> FEBooleanFuncTwoArgs.Argument1 f;
                          (arg1, err1) \<leftarrow> FEConstFuncArgumentRHS_OutputRegexExpression ext a1;
                          (case err1 of
                             Some e \<Rightarrow> Some (LikeExpr arg0 rhs, Some e)
                           | None \<Rightarrow> Some (LikeExpr arg0 arg1, None))
                        })
                 }
             | (_, None) \<Rightarrow> None)
          else
            Some (NilExpression,
                  Some (Errorf (''Invalid FEBooleanFuncTwoArgs ''
                                @ FEBooleanFuncTwoArgsName_String name))))"

definition FEExistsClause_OutputExpression ::
  "externals \<Rightarrow> FEExistsClause \<Rightarrow> (Expression \<times> error option) option" where
  "FEExistsClause_OutputExpression ext f =
     (case FEExistsClause.Field f of
        Some field \<Rightarrow>
          do {
            (fieldExpr, err) \<leftarrow> FEField_OutputExpression ext field;
            (case err of
               Some e \<Rightarrow> Some (NilExpression, Some e)
             | None \<Rightarrow> Some (ExistsExpr fieldExpr, None))
          }
      | None \<Rightarrow>
          Some (NilExpression, Some (Errorf ''Invalid FEExistsClause ?? (FEExistsClause)'')))"

definition FEBooleanFuncExpr_OutputExpression ::
  "externals \<Rightarrow> FEBooleanFuncExpr \<Rightarrow> (Expression \<times> error option) option" where
  "FEBooleanFuncExpr_OutputExpression ext f =
     (case BooleanFuncTwoArgs f of
        Some g \<Rightarrow> FEBooleanFuncTwoArgs_OutputExpression ext g
      | None \<Rightarrow>
          (case ExistsClause f of
             Some g \<Rightarrow> FEExistsClause_OutputExpression ext g
           | None \<Rightarrow> Some (NilExpression, Some (Errorf ''Invalid FEBooleanFuncExpr''))))"

definition FEBooleanExpr_OutputExpression ::
  "externals \<Rightarrow> FEBooleanExpr \<Rightarrow> (Expression \<times> error option) option" where
  "FEBooleanExpr_OutputExpression ext f =
     (case BooleanVal f of
        Some b \<Rightarrow> Some (FEBoolean_OutputExpression b False)
      | None \<Rightarrow>
          (case BooleanFunc f of
             Some g \<Rightarrow> FEBooleanFuncExpr_OutputExpression ext g
           | None \<Rightarrow>
               Some (NilExpression,
                     Some (Errorf ''Invalid FEBooleanExpr ?? (FEBooleanExpr)''))))"

definition FELhs_OutputExpression ::
  "externals \<Rightarrow> FELhs \<Rightarrow> (Expression \<times> error option) option" where
  "FELhs_OutputExpression ext f =
     (case FELhs.Field f of
        Some field \<Rightarrow> FEField_OutputExpression ext field
      | None \<Rightarrow>
          (case FELhs.Value f of
             Some v \<Rightarrow> Some (FEValue_OutputExpression ext v)
           | None \<Rightarrow>
               (case FELhs.Func f of
                  Some g \<Rightarrow> FEConstFuncExpression_OutputExpression ext g
                | None \<Rightarrow>
                    (case FELhs.Bool f of
                       Some b \<Rightarrow> Some (FEBoolean_OutputExpression b True)
                     | None \<Rightarrow>
                         Some (NilExpression, Some (Errorf ''Invalid FELhs ?? (FELhs)''))))))"

definition FERhs_OutputExpression ::
  "externals \<Rightarrow> FERhs \<Rightarrow> (Expression \<times> error option) option" where
  "FERhs_OutputExpression ext f =
     (case FERhs.Field f of
        Some field \<Rightarrow> FEField_OutputExpression ext field
      | None \<Rightarrow>
          (case FERhs.Value f of
             Some v \<Rightarrow> Some (FEValue_OutputExpression ext v)
           | None \<Rightarrow>
               (case FERhs.Func f of
                  Some g \<Rightarrow> FEConstFuncExpression_OutputExpression ext g
                | None \<Rightarrow>
                    (case FERhs.Bool f of
                       Some b \<Rightarrow> Some (FEBoolean_OutputExpression b True)
                     | None \<Rightarrow>
                         Some (NilExpression, Some (Errorf ''Invalid FERhs ?? (FERhs)''))))))"

definition FEOperand_OutputExpression ::
  "externals \<Rightarrow> FEOperand \<Rightarrow> (Expression \<times> error option) option" where
  "FEOperand_OutputExpression ext f =
     (case BooleanExpr f of
        Some b \<Rightarrow> FEBooleanExpr_OutputExpression ext b
      | None \<Rightarrow>
          (case LHS f of
             Some lhs \<Rightarrow>
               do {
                 (lhsExpr, err) \<leftarrow> FELhs_OutputExpression ext lhs;
                 (case err of
                    Some e \<Rightarrow> Some (NilExpression, Some e)
                  | None \<Rightarrow>
                      (case CheckOp f of
                         Some checkOp \<Rightarrow> Some (FECheckOp_OutputExpression checkOp lhsExpr)
                       | None \<Rightarrow>
                           (case (Op f, RHS f) of
                              (Some op, Some rhs) \<Rightarrow>
                                do {
                                  (rhsExpr, err) \<leftarrow> FERhs_OutputExpression ext rhs;
                                  (case err of
                                     Some e \<Rightarrow> Some (NilExpression, Some e)
                                   | None \<Rightarrow>
                                       Some (FECompareOp_OutputExpression op lhsExpr rhsExpr))
                                }
                            | _ \<Rightarrow>
                                Some (NilExpression,
                                      Some (Errorf ''Invalid FEOperand ?? (FEOperand)'')))))
               }
           | None \<Rightarrow> Some (NilExpression, Some (Errorf ''Invalid FEOperand ?? (FEOperand)''))))"

subsection \<open>Conditions, and-conditions and filter expressions\<close>

text \<open>
  The counts are Go \<open>int\<close>s that add lengths of slices; they are taken as integers.
\<close>

fun FECondition_GetTotalOpenParens :: "FECondition \<Rightarrow> int" where
  "FECondition_GetTotalOpenParens (FECondition notCond operand) =
     (case notCond of
        Some c \<Rightarrow> 0 + FECondition_GetTotalOpenParens c
      | None \<Rightarrow> 0)"

fun FECondition_GetTotalCloseParens :: "FECondition \<Rightarrow> int" where
  "FECondition_GetTotalCloseParens (FECondition notCond operand) =
     (case notCond of
        Some c \<Rightarrow> 0 + FECondition_GetTotalCloseParens c
      | None \<Rightarrow> 0)"

fun FECondition_OutputExpression ::
  "externals \<Rightarrow> FECondition \<Rightarrow> (Expression \<times> error option) option" where
  "FECondition_OutputExpression ext (FECondition notCond operand) =
     (case notCond of
        Some c \<Rightarrow>
          do {
            (subNot, err) \<leftarrow> FECondition_OutputExpression ext c;
            Some (NotExpr subNot, err)
          }
      | None \<Rightarrow>
          (case operand of
             Some opd \<Rightarrow> FEOperand_OutputExpression ext opd
           | None \<Rightarrow>
               Some (NilExpression, Some (Errorf ''Invalid FECondition ?? (FECondition)''))))"

definition FEAndCondition_GetTotalOpenParens :: "FEAndCondition \<Rightarrow> int" where
  "FEAndCondition_GetTotalOpenParens f =
     foldl (\<lambda>count cond. count + FECondition_GetTotalOpenParens cond)
       (0 + int (length (OpenParens f))) (OrConditions f)"

definition FEAndCondition_GetTotalCloseParens :: "FEAndCondition \<Rightarrow> int" where
  "FEAndCondition_GetTotalCloseParens f =
     foldl (\<lambda>count cond. count + FECondition_GetTotalCloseParens cond)
       (0 + int (length (CloseParens f))) (OrConditions f)"

text \<open>
  The loop of \<open>FEAndCondition.OutputExpression\<close>, with the conditions still to convert and
  the slice \<open>outExpr\<close> built so far.
\<close>

fun orConditionsLoop ::
  "externals \<Rightarrow> FECondition list \<Rightarrow> Expression list \<Rightarrow> (Expression \<times> error option) option"
  where
  "orConditionsLoop ext [] outExpr = Some (AndExpr outExpr, None)"
| "orConditionsLoop ext (oneExpr # rest) outExpr =
     do {
       (expr, err) \<leftarrow> FECondition_OutputExpression ext oneExpr;
       (case err of
          Some e \<Rightarrow> Some (AndExpr outExpr, Some e)
        | None \<Rightarrow> orConditionsLoop ext rest (outExpr @ [expr]))
     }"

definition FEAndCondition_OutputExpression ::
  "externals \<Rightarrow> FEAndCondition \<Rightarrow> (Expression \<times> error option) option" where
  "FEAndCondition_OutputExpression ext f = orConditionsLoop ext (OrConditions f) []"

fun FilterExpression_GetTotalOpenParens :: "FilterExpression \<Rightarrow> int" where
  "FilterExpression_GetTotalOpenParens (FilterExpression andConditions subFilterExpr) =
     foldl (\<lambda>count se. count + FilterExpression_GetTotalOpenParens se)
       (foldl (\<lambda>count ac. count + FEAndCondition_GetTotalOpenParens ac) 0 andConditions)
       subFilterExpr"

fun FilterExpression_GetTotalCloseParens :: "FilterExpression \<Rightarrow> int" where
  "FilterExpression_GetTotalCloseParens (FilterExpression andConditions subFilterExpr) =
     foldl (\<lambda>count se. count + FilterExpression_GetTotalCloseParens se)
       (foldl (\<lambda>count ac. count + FEAndCondition_GetTotalCloseParens ac) 0 andConditions)
       subFilterExpr"

text \<open>
  The first loop of \<open>FilterExpression.OutputExpression\<close>, over \<open>f.AndConditions\<close>, with the
  slice \<open>outExpr\<close> built so far.
\<close>

fun andConditionsLoop ::
  "externals \<Rightarrow> FEAndCondition list \<Rightarrow> Expression list \<Rightarrow> (Expression \<times> error option) option"
  where
  "andConditionsLoop ext [] outExpr = Some (OrExpr outExpr, None)"
| "andConditionsLoop ext (oneExpr # rest) outExpr =
     do {
       (andExpr, err) \<leftarrow> FEAndCondition_OutputExpression ext oneExpr;
       (case err of
          Some e \<Rightarrow> Some (OrExpr outExpr, Some e)
        | None \<Rightarrow> andConditionsLoop ext rest (outExpr @ [andExpr]))
     }"

text \<open>
  \<open>FilterExpression.OutputExpression\<close>, and its second loop \<open>subFilterLoop\<close> over
  \<open>f.SubFilterExpr\<close> with the slice \<open>combinedExpr\<close> built so far. Each sub-expression is
  lowered by the same method, so that it compares its own two totals first.
\<close>

fun FilterExpression_OutputExpression ::
    "externals \<Rightarrow> FilterExpression \<Rightarrow> (Expression \<times> error option) option"
  and subFilterLoop ::
    "externals \<Rightarrow> FilterExpression list \<Rightarrow> Expression list
       \<Rightarrow> (Expression \<times> error option) option"
  where
  "FilterExpression_OutputExpression ext (FilterExpression andConditions subFilterExpr) =
     (if FilterExpression_GetTotalOpenParens (FilterExpression andConditions subFilterExpr)
         \<noteq> FilterExpression_GetTotalCloseParens (FilterExpression andConditions subFilterExpr)
      then Some (OrExpr [], Some ErrorMalformedParenthesis)
      else
        do {
          (outExpr, err) \<leftarrow> andConditionsLoop ext andConditions [];
          (case err of
             Some e \<Rightarrow> Some (outExpr, Some e)
           | None \<Rightarrow>
               if length subFilterExpr > 0 then subFilterLoop ext subFilterExpr [outExpr]
               else Some (outExpr, None))
        })"
| "subFilterLoop ext [] combinedExpr = Some (AndExpr combinedExpr, None)"
| "subFilterLoop ext (subFilterExpr # rest) combinedExpr =
     do {
       (subExpr, err) \<leftarrow> FilterExpression_OutputExpression ext subFilterExpr;
       (case err of
          Some e \<Rightarrow> Some (AndExpr combinedExpr, Some e)
        | None \<Rightarrow> subFilterLoop ext rest (combinedExpr @ [subExpr]))
     }"

section \<open>Properties of the lowering\<close>

lemma FEField_special_fires:
  assumes "Path f = [p]" and "FEOnePath_String p = Some text"
    and "iso8601Year ext text \<or> iso8601YearAndMonth ext text \<or> iso8601CompleteDate ext text"
  shows "FEField_ShouldHandleSpecialValue ext f = Some True"
  using assms by (auto simp: FEField_ShouldHandleSpecialValue_def)

text \<open>
  Dates for the examples: a string of the shape \<open>dddd-dd-dd\<close> is a complete date, and
  nothing is a year or a year and month.
\<close>

definition isDigit :: "char \<Rightarrow> bool" where
  "isDigit c \<longleftrightarrow> c \<in> set ''0123456789''"

definition exampleExternals :: externals where
  "exampleExternals =
     \<lparr>iso8601Year = (\<lambda>s. False),
      iso8601YearAndMonth = (\<lambda>s. False),
      iso8601CompleteDate =
        (\<lambda>s. length s = 10 \<and> s ! 4 = CHR ''-'' \<and> s ! 7 = CHR ''-''
             \<and> list_all isDigit (take 4 s) \<and> list_all isDigit (take 2 (drop 5 s))
             \<and> list_all isDigit (drop 8 s)),
      tokenIsPcreValueType = (\<lambda>s. False),
      MakePcreExpression = (\<lambda>s. (PcreExpr s, None)),
      formatInt = (\<lambda>i. ''int''),
      formatFloat = (\<lambda>x. ''float'')\<rparr>"

text \<open>The field expression \<open>- "2021-01-02" + 1\<close>.\<close>

definition negatedDatePlusOne :: FEField where
  "negatedDatePlusOne =
     FEField (Some True)
       [FEOnePath None (Some (FEStringType ''2021-01-02'' [] [] [])) []]
       (Some (FEMathArithmeticOp (Some True) None None None None))
       (Some (FEMathValue (Some 1) None))"

text \<open>
  C10: a field expression whose path is one segment, with a text that one of the three
  ISO-8601 patterns matches, is lowered to the \<open>ValueExpr\<close> of that text as a string,
  not to a \<open>FieldExpr\<close>; the negation and the arithmetic operator and value of the field
  do not show in the result, which is that of the bare segment. \<open>FEField.OutputExpression\<close>
  takes no account of where the field stands.
\<close>

theorem FEField_date_is_value:
  assumes "Path f = [p]" and "FEOnePath_String p = Some text"
    and "iso8601Year ext text \<or> iso8601YearAndMonth ext text \<or> iso8601CompleteDate ext text"
  shows "FEField_OutputExpression ext f = Some (ValueExpr (StringValue text), None)
       \<and> FEField_OutputExpression ext f
           = FEField_OutputExpression ext (FEField None [p] None None)"
proof -
  have "FEField_OutputExpression ext g = Some (ValueExpr (StringValue text), None)"
    if "Path g = [p]" for g
    using FEField_special_fires [OF that assms(2,3)] that assms(2)
    by (simp add: FEField_OutputExpression_def FEField_OutputExpressionSpecialAsValue_def)
  from this [of f] this [of "FEField None [p] None None"] assms(1) show ?thesis by simp
qed

theorem FEField_date_is_value_witness:
  "Path negatedDatePlusOne = [FEOnePath None (Some (FEStringType ''2021-01-02'' [] [] [])) []]
   \<and> FEOnePath_String (FEOnePath None (Some (FEStringType ''2021-01-02'' [] [] [])) [])
       = Some ''2021-01-02''
   \<and> iso8601CompleteDate exampleExternals ''2021-01-02''
   \<and> FEField_OutputExpression exampleExternals negatedDatePlusOne
       = Some (ValueExpr (StringValue ''2021-01-02''), None)"
proof -
  have h1: "Path negatedDatePlusOne
      = [FEOnePath None (Some (FEStringType ''2021-01-02'' [] [] [])) []]"
    by (simp add: negatedDatePlusOne_def)
  have h2: "FEOnePath_String (FEOnePath None (Some (FEStringType ''2021-01-02'' [] [] [])) [])
       = Some ''2021-01-02''"
    by (simp add: FEOnePath_String_def FEStringType_String_def)
  have h3: "iso8601CompleteDate exampleExternals ''2021-01-02''"
    by (simp add: exampleExternals_def isDigit_def)
  from FEField_date_is_value [of negatedDatePlusOne _ _ exampleExternals, OF h1 h2] h3 h1 h2
  show ?thesis by simp
qed

subsection \<open>Where a parenthesis error can come from\<close>

text \<open>
  Below a filter expression, no method of the file makes \<open>ErrorMalformedParenthesis\<close>:
  an error of an operand is a \<open>fmt.Errorf\<close> value, \<open>ErrorNotFound\<close>, or what
  \<open>MakePcreExpression\<close> returned.
\<close>

definition pcreKeepsParens :: "externals \<Rightarrow> bool" where
  "pcreKeepsParens ext \<longleftrightarrow>
     (\<forall>s. snd (MakePcreExpression ext s) \<noteq> Some ErrorMalformedParenthesis)"

lemma FEOnePath_OutputOnePath_error:
  assumes "FEOnePath_OutputOnePath f = Some (name, arrays, Some err)"
  shows "err \<noteq> ErrorMalformedParenthesis"
  using assms
  by (auto simp: FEOnePath_OutputOnePath_def Let_def
      split: option.splits Option.bind_splits)

lemma collectPath_error:
  assumes "collectPath ps outPath = Some (out, Some err)"
  shows "err \<noteq> ErrorMalformedParenthesis"
  using assms
proof (induction ps arbitrary: outPath)
  case Nil
  then show ?case by simp
next
  case (Cons p ps)
  then show ?case
    by (auto split: Option.bind_splits option.splits prod.splits
        dest: FEOnePath_OutputOnePath_error)
qed

lemma FEMathArithmeticOp_OutputExpression_error:
  "snd (FEMathArithmeticOp_OutputExpression f) \<noteq> Some ErrorMalformedParenthesis"
  by (simp add: FEMathArithmeticOp_OutputExpression_def)

lemma FEMathValue_OutputExpression_error:
  "snd (FEMathValue_OutputExpression f) \<noteq> Some ErrorMalformedParenthesis"
  by (simp add: FEMathValue_OutputExpression_def split: option.splits)

lemma FEField_OutputExpression_error:
  assumes "FEField_OutputExpression ext f = Some (expr, Some err)"
  shows "err \<noteq> ErrorMalformedParenthesis"
proof
  assume e: "err = ErrorMalformedParenthesis"
  from assms obtain special where
    sp: "FEField_ShouldHandleSpecialValue ext f = Some special"
    by (auto simp: FEField_OutputExpression_def split: Option.bind_splits)
  show False
  proof (cases special)
    case True
    with assms sp show False
      by (auto simp: FEField_OutputExpression_def FEField_OutputExpressionSpecialAsValue_def
          split: list.splits Option.bind_splits)
  next
    case False
    with assms sp obtain outPath perr where
      cp: "collectPath (Path f) [] = Some (outPath, perr)"
      by (auto simp: FEField_OutputExpression_def split: Option.bind_splits)
    show False
    proof (cases perr)
      case (Some pe)
      with assms sp False cp have "err = pe"
        by (simp add: FEField_OutputExpression_def)
      with collectPath_error [of "Path f" "[]" outPath pe] cp Some e show False by simp
    next
      case None
      note a = FEMathArithmeticOp_OutputExpression_error
      note b = FEMathValue_OutputExpression_error
      from assms sp False cp None e show False
        apply (simp add: FEField_OutputExpression_def split: if_splits option.splits)
        subgoal for mathOp
          using a [of mathOp]
          apply (cases "FEMathArithmeticOp_OutputExpression mathOp")
          subgoal for x y
            apply (cases y; cases x; simp add: Let_def split: option.splits)
            subgoal for n ps mv
              using b [of mv]
              by (cases "FEMathValue_OutputExpression mv"; auto split: option.splits)
            done
          done
        done
    qed
  qed
qed

lemma FEValue_OutputExpression_error:
  "snd (FEValue_OutputExpression ext f) \<noteq> Some ErrorMalformedParenthesis"
  by (simp add: FEValue_OutputExpression_def split: option.splits)

lemma FEBoolean_OutputExpression_error:
  "snd (FEBoolean_OutputExpression f asValue) \<noteq> Some ErrorMalformedParenthesis"
  by (simp add: FEBoolean_OutputExpression_def)

lemma FECompareOp_OutputExpression_error:
  "snd (FECompareOp_OutputExpression f lhs rhs) \<noteq> Some ErrorMalformedParenthesis"
  by (simp add: FECompareOp_OutputExpression_def)

lemma FECheckOp_OutputExpression_error:
  "snd (FECheckOp_OutputExpression f subExpr) \<noteq> Some ErrorMalformedParenthesis"
  by (simp add: FECheckOp_OutputExpression_def)

lemma FEConstFuncNoArg_OutputExpression_error:
  "snd (FEConstFuncNoArg_OutputExpression f) \<noteq> Some ErrorMalformedParenthesis"
  by (simp add: FEConstFuncNoArg_OutputExpression_def split: option.splits)

lemma FEConstFuncOneArgName_OutputExpression_error:
  "snd (FEConstFuncOneArgName_OutputExpression f) \<noteq> Some ErrorMalformedParenthesis"
  by (simp add: FEConstFuncOneArgName_OutputExpression_def)

lemma FEConstFuncTwoArgsName_OutputExpression_error:
  "snd (FEConstFuncTwoArgsName_OutputExpression f) \<noteq> Some ErrorMalformedParenthesis"
  by (simp add: FEConstFuncTwoArgsName_OutputExpression_def)

lemma FEConstFunc_OutputExpression_error:
  "(\<forall>expr err. FEConstFuncExpression_OutputExpression ext f = Some (expr, Some err)
      \<longrightarrow> err \<noteq> ErrorMalformedParenthesis)"
  "(\<forall>expr err. FEConstFuncOneArg_OutputExpression ext f1 = Some (expr, Some err)
      \<longrightarrow> err \<noteq> ErrorMalformedParenthesis)"
  "(\<forall>expr err. FEConstFuncTwoArgs_OutputExpression ext f2 = Some (expr, Some err)
      \<longrightarrow> err \<noteq> ErrorMalformedParenthesis)"
  "(\<forall>expr err. FEConstFuncArgument_OutputExpression ext a = Some (expr, Some err)
      \<longrightarrow> err \<noteq> ErrorMalformedParenthesis)"
proof (induction ext f and ext f1 and ext f2 and ext a
    rule: FEConstFuncExpression_OutputExpression_FEConstFuncOneArg_OutputExpression_FEConstFuncTwoArgs_OutputExpression_FEConstFuncArgument_OutputExpression.induct)
  case (1 ext noArg oneArg twoArgs)
  show ?case
  proof (cases noArg)
    case (Some g)
    with FEConstFuncNoArg_OutputExpression_error [of g] show ?thesis
      by (cases "FEConstFuncNoArg_OutputExpression g") auto
  next
    case None
    with 1 show ?thesis by (auto split: option.splits)
  qed
next
  case (2 ext name argument)
  show ?case
  proof (cases name)
    case None
    then show ?thesis by simp
  next
    case n: (Some n)
    show ?thesis
    proof (cases argument)
      case None
      with n show ?thesis by simp
    next
      case a: (Some a)
      obtain funcName nerr where r: "FEConstFuncOneArgName_OutputExpression n = (funcName, nerr)"
        by (cases "FEConstFuncOneArgName_OutputExpression n")
      show ?thesis
      proof (cases nerr)
        case (Some e)
        with FEConstFuncOneArgName_OutputExpression_error [of n] r n a show ?thesis by auto
      next
        case None
        with 2 [OF n a r [symmetric]] n a r show ?thesis
          by (auto split: Option.bind_splits option.splits)
      qed
    qed
  qed
next
  case (3 ext name argument0 argument1)
  show ?case
  proof (cases name)
    case None
    then show ?thesis by simp
  next
    case n: (Some n)
    show ?thesis
    proof (cases argument0)
      case None
      with n show ?thesis by simp
    next
      case a0: (Some a0)
      show ?thesis
      proof (cases argument1)
        case None
        with n a0 show ?thesis by simp
      next
        case a1: (Some a1)
        obtain funcName nerr where
          r: "FEConstFuncTwoArgsName_OutputExpression n = (funcName, nerr)"
          by (cases "FEConstFuncTwoArgsName_OutputExpression n")
        show ?thesis
        proof (cases nerr)
          case (Some e)
          with FEConstFuncTwoArgsName_OutputExpression_error [of n] r n a0 a1 show ?thesis
            by auto
        next
          case None
          note ih0 = 3(1) [OF n a0 a1 r [symmetric] None]
          note ih1 = 3(2) [OF n a0 a1 r [symmetric] None]
          show ?thesis
          proof (intro allI impI)
            fix expr err
            assume res: "FEConstFuncTwoArgs_OutputExpression ext
                (FEConstFuncTwoArgs name argument0 argument1) = Some (expr, Some err)"
            from res n a0 a1 r None obtain arg0 err0 where
              r0: "FEConstFuncArgument_OutputExpression ext a0 = Some (arg0, err0)"
              by (auto split: Option.bind_splits)
            show "err \<noteq> ErrorMalformedParenthesis"
            proof (cases err0)
              case (Some e0)
              with res n a0 a1 r None r0 have "err = e0" by simp
              with ih0 r0 Some show ?thesis by simp
            next
              case e0: None
              from res n a0 a1 r None r0 e0 obtain arg1 err1 where
                r1: "FEConstFuncArgument_OutputExpression ext a1 = Some (arg1, err1)"
                by (auto split: Option.bind_splits)
              from res n a0 a1 r None r0 e0 r1 obtain e1 where
                "err1 = Some e1" "err = e1"
                by (cases err1) auto
              with ih1 [OF r0 refl e0] r1 show ?thesis by simp
            qed
          qed
        qed
      qed
    qed
  qed
next
  case (4 ext subFunc field argument)
  show ?case
  proof (cases argument)
    case (Some v)
    with FEValue_OutputExpression_error [of ext v] show ?thesis
      by (cases "FEValue_OutputExpression ext v") auto
  next
    case None
    with 4 show ?thesis
      by (auto split: option.splits dest: FEField_OutputExpression_error)
  qed
qed

lemma FEConstFuncArgumentRHS_OutputRegexExpression_error:
  assumes "pcreKeepsParens ext"
    and "FEConstFuncArgumentRHS_OutputRegexExpression ext f = Some (expr, Some err)"
  shows "err \<noteq> ErrorMalformedParenthesis"
proof (cases "FEConstFuncArgumentRHS.Argument f")
  case None
  with assms(2) show ?thesis
    by (auto simp: FEConstFuncArgumentRHS_OutputRegexExpression_def split: Option.bind_splits)
next
  case (Some v)
  from assms(1) have "snd (MakePcreExpression ext (FEValue_String ext v))
      \<noteq> Some ErrorMalformedParenthesis"
    by (simp add: pcreKeepsParens_def)
  with assms(2) Some show ?thesis
    by (auto simp: FEConstFuncArgumentRHS_OutputRegexExpression_def split: if_splits)
qed

lemma FEBooleanFuncTwoArgs_OutputExpression_error:
  assumes "pcreKeepsParens ext"
    and "FEBooleanFuncTwoArgs_OutputExpression ext f = Some (expr, Some err)"
  shows "err \<noteq> ErrorMalformedParenthesis"
proof -
  from assms(2) obtain name where n: "BooleanFuncTwoArgsName f = Some name"
    by (cases "BooleanFuncTwoArgsName f") (auto simp: FEBooleanFuncTwoArgs_OutputExpression_def)
  show ?thesis
  proof (cases "isSet (RegexContains name) \<and> FEBooleanFuncTwoArgs.Argument0 f \<noteq> None
             \<and> FEBooleanFuncTwoArgs.Argument1 f \<noteq> None")
    case False
    with assms(2) n show ?thesis
      by (auto simp: FEBooleanFuncTwoArgs_OutputExpression_def)
  next
    case True
    then obtain a0 a1 where a: "FEBooleanFuncTwoArgs.Argument0 f = Some a0"
      "FEBooleanFuncTwoArgs.Argument1 f = Some a1" and s: "isSet (RegexContains name)"
      by auto
    from assms(2) n a s obtain arg0 err0 where
      r0: "FEConstFuncArgument_OutputExpression ext a0 = Some (arg0, err0)"
      by (auto simp: FEBooleanFuncTwoArgs_OutputExpression_def
          FEBooleanFuncTwoArgsName_OutputExpression_def split: Option.bind_splits)
    show ?thesis
    proof (cases err0)
      case (Some e0)
      with assms(2) n a s r0 have "err = e0"
        by (simp add: FEBooleanFuncTwoArgs_OutputExpression_def
            FEBooleanFuncTwoArgsName_OutputExpression_def)
      with FEConstFunc_OutputExpression_error(4) [of ext a0] r0 Some show ?thesis by simp
    next
      case None
      with assms(2) n a s r0 obtain arg1 err1 where
        r1: "FEConstFuncArgumentRHS_OutputRegexExpression ext a1 = Some (arg1, err1)"
        by (auto simp: FEBooleanFuncTwoArgs_OutputExpression_def
            FEBooleanFuncTwoArgsName_OutputExpression_def split: Option.bind_splits)
      with assms(2) n a s r0 None have "err1 = Some err"
        by (cases err1)
          (simp_all add: FEBooleanFuncTwoArgs_OutputExpression_def
            FEBooleanFuncTwoArgsName_OutputExpression_def)
      with FEConstFuncArgumentRHS_OutputRegexExpression_error [OF assms(1), of a1 arg1 err] r1
      show ?thesis by simp
    qed
  qed
qed

lemma FEExistsClause_OutputExpression_error:
  assumes "FEExistsClause_OutputExpression ext f = Some (expr, Some err)"
  shows "err \<noteq> ErrorMalformedParenthesis"
  using assms
  by (auto simp: FEExistsClause_OutputExpression_def
      split: option.splits Option.bind_splits dest: FEField_OutputExpression_error)

lemma FEBooleanFuncExpr_OutputExpression_error:
  assumes "pcreKeepsParens ext"
    and "FEBooleanFuncExpr_OutputExpression ext f = Some (expr, Some err)"
  shows "err \<noteq> ErrorMalformedParenthesis"
  using assms(2) FEBooleanFuncTwoArgs_OutputExpression_error [OF assms(1)]
    FEExistsClause_OutputExpression_error
  by (auto simp: FEBooleanFuncExpr_OutputExpression_def split: option.splits)

lemma FEBooleanExpr_OutputExpression_error:
  assumes "pcreKeepsParens ext"
    and "FEBooleanExpr_OutputExpression ext f = Some (expr, Some err)"
  shows "err \<noteq> ErrorMalformedParenthesis"
proof (cases "BooleanVal f")
  case (Some b)
  with assms(2) FEBoolean_OutputExpression_error [of b False] show ?thesis
    by (auto simp: FEBooleanExpr_OutputExpression_def)
next
  case None
  with assms(2) FEBooleanFuncExpr_OutputExpression_error [OF assms(1)] show ?thesis
    by (auto simp: FEBooleanExpr_OutputExpression_def split: option.splits)
qed

lemma FELhs_OutputExpression_error:
  assumes "FELhs_OutputExpression ext f = Some (expr, Some err)"
  shows "err \<noteq> ErrorMalformedParenthesis"
proof (cases "FELhs.Field f")
  case (Some field)
  with assms show ?thesis
    by (auto simp: FELhs_OutputExpression_def dest: FEField_OutputExpression_error)
next
  case nf: None
  show ?thesis
  proof (cases "FELhs.Value f")
    case (Some v)
    with assms nf FEValue_OutputExpression_error [of ext v] show ?thesis
      by (auto simp: FELhs_OutputExpression_def)
  next
    case nv: None
    show ?thesis
    proof (cases "FELhs.Func f")
      case (Some g)
      with assms nf nv FEConstFunc_OutputExpression_error(1) [of ext g] show ?thesis
        by (auto simp: FELhs_OutputExpression_def)
    next
      case ng: None
      show ?thesis
      proof (cases "FELhs.Bool f")
        case (Some b)
        with assms nf nv ng FEBoolean_OutputExpression_error [of b True] show ?thesis
          by (auto simp: FELhs_OutputExpression_def)
      next
        case None
        with assms nf nv ng show ?thesis by (auto simp: FELhs_OutputExpression_def)
      qed
    qed
  qed
qed

lemma FERhs_OutputExpression_error:
  assumes "FERhs_OutputExpression ext f = Some (expr, Some err)"
  shows "err \<noteq> ErrorMalformedParenthesis"
proof (cases "FERhs.Field f")
  case (Some field)
  with assms show ?thesis
    by (auto simp: FERhs_OutputExpression_def dest: FEField_OutputExpression_error)
next
  case nf: None
  show ?thesis
  proof (cases "FERhs.Value f")
    case (Some v)
    with assms nf FEValue_OutputExpression_error [of ext v] show ?thesis
      by (auto simp: FERhs_OutputExpression_def)
  next
    case nv: None
    show ?thesis
    proof (cases "FERhs.Func f")
      case (Some g)
      with assms nf nv FEConstFunc_OutputExpression_error(1) [of ext g] show ?thesis
        by (auto simp: FERhs_OutputExpression_def)
    next
      case ng: None
      show ?thesis
      proof (cases "FERhs.Bool f")
        case (Some b)
        with assms nf nv ng FEBoolean_OutputExpression_error [of b True] show ?thesis
          by (auto simp: FERhs_OutputExpression_def)
      next
        case None
        with assms nf nv ng show ?thesis by (auto simp: FERhs_OutputExpression_def)
      qed
    qed
  qed
qed

lemma FEOperand_OutputExpression_error:
  assumes "pcreKeepsParens ext"
    and "FEOperand_OutputExpression ext f = Some (expr, Some err)"
  shows "err \<noteq> ErrorMalformedParenthesis"
proof (cases "BooleanExpr f")
  case (Some b)
  with assms(2) FEBooleanExpr_OutputExpression_error [OF assms(1)] show ?thesis
    by (auto simp: FEOperand_OutputExpression_def)
next
  case nb: None
  show ?thesis
  proof (cases "LHS f")
    case None
    with assms(2) nb show ?thesis by (auto simp: FEOperand_OutputExpression_def)
  next
    case l: (Some lhs)
    from assms(2) nb l obtain lhsExpr lerr where
      rl: "FELhs_OutputExpression ext lhs = Some (lhsExpr, lerr)"
      by (auto simp: FEOperand_OutputExpression_def split: Option.bind_splits)
    show ?thesis
    proof (cases lerr)
      case (Some e)
      with assms(2) nb l rl have "err = e" by (simp add: FEOperand_OutputExpression_def)
      with FELhs_OutputExpression_error [of ext lhs lhsExpr e] rl Some show ?thesis by simp
    next
      case nl: None
      show ?thesis
      proof (cases "CheckOp f")
        case (Some checkOp)
        with assms(2) nb l rl nl FECheckOp_OutputExpression_error [of checkOp lhsExpr]
        show ?thesis by (auto simp: FEOperand_OutputExpression_def)
      next
        case nc: None
        show ?thesis
        proof (cases "Op f")
          case None
          with assms(2) nb l rl nl nc show ?thesis
            by (auto simp: FEOperand_OutputExpression_def)
        next
          case o: (Some op)
          show ?thesis
          proof (cases "RHS f")
            case None
            with assms(2) nb l rl nl nc o show ?thesis
              by (auto simp: FEOperand_OutputExpression_def)
          next
            case r: (Some rhs)
            from assms(2) nb l rl nl nc o r obtain rhsExpr rerr where
              rr: "FERhs_OutputExpression ext rhs = Some (rhsExpr, rerr)"
              by (auto simp: FEOperand_OutputExpression_def split: Option.bind_splits)
            show ?thesis
            proof (cases rerr)
              case (Some e)
              with assms(2) nb l rl nl nc o r rr have "err = e"
                by (simp add: FEOperand_OutputExpression_def)
              with FERhs_OutputExpression_error [of ext rhs rhsExpr e] rr Some
              show ?thesis by simp
            next
              case None
              with assms(2) nb l rl nl nc o r rr
                FECompareOp_OutputExpression_error [of op lhsExpr rhsExpr]
              show ?thesis by (auto simp: FEOperand_OutputExpression_def)
            qed
          qed
        qed
      qed
    qed
  qed
qed

lemma FECondition_OutputExpression_error:
  assumes "pcreKeepsParens ext"
    and "FECondition_OutputExpression ext f = Some (expr, Some err)"
  shows "err \<noteq> ErrorMalformedParenthesis"
  using assms
proof (induction ext f arbitrary: expr rule: FECondition_OutputExpression.induct)
  case (1 ext notCond operand)
  show ?case
  proof (cases notCond)
    case (Some c)
    with 1(3) obtain subNot where "FECondition_OutputExpression ext c = Some (subNot, Some err)"
      by (auto split: Option.bind_splits)
    with 1(1) [OF Some 1(2)] show ?thesis by simp
  next
    case None
    with 1(3) FEOperand_OutputExpression_error [OF 1(2)] show ?thesis
      by (auto split: option.splits)
  qed
qed

lemma orConditionsLoop_error:
  assumes "pcreKeepsParens ext"
    and "orConditionsLoop ext conds outExpr = Some (expr, Some err)"
  shows "err \<noteq> ErrorMalformedParenthesis"
  using assms(2)
proof (induction conds arbitrary: outExpr)
  case Nil
  then show ?case by simp
next
  case (Cons c conds)
  from Cons.prems obtain e cerr where
    r: "FECondition_OutputExpression ext c = Some (e, cerr)"
    by (auto split: Option.bind_splits)
  show ?case
  proof (cases cerr)
    case (Some ce)
    with Cons.prems r have "err = ce" by simp
    with FECondition_OutputExpression_error [OF assms(1), of c e ce] r Some show ?thesis
      by simp
  next
    case None
    with Cons.prems r have "orConditionsLoop ext conds (outExpr @ [e]) = Some (expr, Some err)"
      by simp
    then show ?thesis by (rule Cons.IH)
  qed
qed

lemma andConditionsLoop_error:
  assumes "pcreKeepsParens ext"
    and "andConditionsLoop ext acs outExpr = Some (expr, Some err)"
  shows "err \<noteq> ErrorMalformedParenthesis"
  using assms(2)
proof (induction acs arbitrary: outExpr)
  case Nil
  then show ?case by simp
next
  case (Cons ac acs)
  from Cons.prems obtain e aerr where
    r: "FEAndCondition_OutputExpression ext ac = Some (e, aerr)"
    by (auto split: Option.bind_splits)
  show ?case
  proof (cases aerr)
    case (Some ae)
    with Cons.prems r have "err = ae" by simp
    with orConditionsLoop_error [OF assms(1), of "OrConditions ac" "[]" e ae] r Some
    show ?thesis by (simp add: FEAndCondition_OutputExpression_def)
  next
    case None
    with Cons.prems r have "andConditionsLoop ext acs (outExpr @ [e]) = Some (expr, Some err)"
      by simp
    then show ?thesis by (rule Cons.IH)
  qed
qed

subsection \<open>The parenthesis check\<close>

text \<open>
  A condition holds no parenthesis, so that the total of an and-condition is the number of
  its parenthesis structures.
\<close>

lemma FECondition_GetTotalOpenParens_zero: "FECondition_GetTotalOpenParens c = 0"
  by (induction c rule: FECondition_GetTotalOpenParens.induct) (simp split: option.splits)

lemma FECondition_GetTotalCloseParens_zero: "FECondition_GetTotalCloseParens c = 0"
  by (induction c rule: FECondition_GetTotalCloseParens.induct) (simp split: option.splits)

lemma foldl_keep: "foldl (\<lambda>count x. count) n xs = n"
  by (induction xs arbitrary: n) simp_all

lemma FEAndCondition_GetTotalOpenParens_length:
  "FEAndCondition_GetTotalOpenParens f = int (length (OpenParens f))"
  by (simp add: FEAndCondition_GetTotalOpenParens_def FECondition_GetTotalOpenParens_zero
      foldl_keep)

lemma FEAndCondition_GetTotalCloseParens_length:
  "FEAndCondition_GetTotalCloseParens f = int (length (CloseParens f))"
  by (simp add: FEAndCondition_GetTotalCloseParens_def FECondition_GetTotalCloseParens_zero
      foldl_keep)

text \<open>
  \<open>subFilters f\<close>: the filter expression \<open>f\<close> and every filter expression nested in it
  through \<open>SubFilterExpr\<close>.
\<close>

fun subFilters :: "FilterExpression \<Rightarrow> FilterExpression list" where
  "subFilters (FilterExpression andConditions subFilterExpr) =
     FilterExpression andConditions subFilterExpr # concat (map subFilters subFilterExpr)"

definition totalsDiffer :: "FilterExpression \<Rightarrow> bool" where
  "totalsDiffer f \<longleftrightarrow>
     FilterExpression_GetTotalOpenParens f \<noteq> FilterExpression_GetTotalCloseParens f"

lemma OutputExpression_parenthesis_source:
  "pcreKeepsParens ext \<Longrightarrow>
   FilterExpression_OutputExpression ext f = Some (expr, Some ErrorMalformedParenthesis)
      \<Longrightarrow> \<exists>g \<in> set (subFilters f). totalsDiffer g"
  "pcreKeepsParens ext \<Longrightarrow>
   subFilterLoop ext subs combinedExpr = Some (expr, Some ErrorMalformedParenthesis)
      \<Longrightarrow> \<exists>s \<in> set subs. \<exists>g \<in> set (subFilters s). totalsDiffer g"
proof (induction ext f and ext subs combinedExpr arbitrary: expr and expr
    rule: FilterExpression_OutputExpression_subFilterLoop.induct)
  case (1 ext andConditions subFilterExpr)
  let ?f = "FilterExpression andConditions subFilterExpr"
  note res = 1(3)
  show ?case
  proof (cases "totalsDiffer ?f")
    case True
    then show ?thesis by auto
  next
    case False
    hence eq: "FilterExpression_GetTotalOpenParens ?f = FilterExpression_GetTotalCloseParens ?f"
      by (simp add: totalsDiffer_def)
    from res eq obtain outExpr aerr where
      r: "andConditionsLoop ext andConditions [] = Some (outExpr, aerr)"
      by (auto simp del: FilterExpression_GetTotalOpenParens.simps
          FilterExpression_GetTotalCloseParens.simps split: Option.bind_splits if_splits)
    show ?thesis
    proof (cases aerr)
      case (Some ae)
      with res eq r have "ae = ErrorMalformedParenthesis"
        by (simp del: FilterExpression_GetTotalOpenParens.simps
            FilterExpression_GetTotalCloseParens.simps)
      with andConditionsLoop_error [OF 1(2), of andConditions "[]" outExpr ae] r Some
      show ?thesis by simp
    next
      case None
      with res eq r have
        l: "subFilterLoop ext subFilterExpr [outExpr]
            = Some (expr, Some ErrorMalformedParenthesis)"
        and ne: "0 < length subFilterExpr"
        by (auto simp del: FilterExpression_GetTotalOpenParens.simps
            FilterExpression_GetTotalCloseParens.simps split: if_splits)
      from eq have neq: "\<not> FilterExpression_GetTotalOpenParens ?f
          \<noteq> FilterExpression_GetTotalCloseParens ?f" by simp
      from 1(1) [OF neq r refl None ne 1(2) l] show ?thesis by auto
    qed
  qed
next
  case (2 ext combinedExpr)
  then show ?case by simp
next
  case (3 ext subFilterExpr rest combinedExpr)
  note res = 3(4)
  from res obtain subExpr serr where
    r: "FilterExpression_OutputExpression ext subFilterExpr = Some (subExpr, serr)"
    by (auto split: Option.bind_splits)
  show ?case
  proof (cases serr)
    case (Some se)
    with res r have "se = ErrorMalformedParenthesis" by simp
    with 3(1) [OF 3(3), of subExpr] r Some show ?thesis by auto
  next
    case None
    with res r have "subFilterLoop ext rest (combinedExpr @ [subExpr])
        = Some (expr, Some ErrorMalformedParenthesis)"
      by simp
    from 3(2) [OF r refl None 3(3) this] show ?thesis by auto
  qed
qed

text \<open>
  Two filter expressions with the one condition \<open>TRUE\<close>: \<open>openOnly\<close> is what the grammar
  of the struct tags gives for \<open>(TRUE\<close>, and \<open>closeThenOpen\<close> for \<open>TRUE) AND (TRUE\<close>, whose
  second half is the nested filter expression \<open>openOnly\<close>.
\<close>

definition trueCondition :: FECondition where
  "trueCondition =
     FECondition None
       (Some (FEOperand (Some (FEBooleanExpr (Some (FEBoolean (Some True) None None None)) None))
                None None None None))"

definition openOnly :: FilterExpression where
  "openOnly = FilterExpression [FEAndCondition [FEOpenParen ''(''] [trueCondition] []] []"

definition closeThenOpen :: FilterExpression where
  "closeThenOpen =
     FilterExpression [FEAndCondition [] [trueCondition] [FECloseParen '')'']] [openOnly]"

lemmas lowering_simps =
  trueCondition_def FEAndCondition_GetTotalOpenParens_def FEAndCondition_GetTotalCloseParens_def
  FEAndCondition_OutputExpression_def FEOperand_OutputExpression_def
  FEBooleanExpr_OutputExpression_def FEBoolean_OutputExpression_def IsSet_def GetBool_def
  isSet_def

lemma openOnly_totals:
  "FilterExpression_GetTotalOpenParens openOnly = 1"
  "FilterExpression_GetTotalCloseParens openOnly = 0"
  by (simp_all add: openOnly_def lowering_simps)

lemma closeThenOpen_totals:
  "FilterExpression_GetTotalOpenParens closeThenOpen = 1"
  "FilterExpression_GetTotalCloseParens closeThenOpen = 1"
  by (simp_all add: closeThenOpen_def openOnly_def lowering_simps)

lemma openOnly_run:
  "FilterExpression_OutputExpression ext openOnly
     = Some (OrExpr [], Some ErrorMalformedParenthesis)"
  by (simp add: openOnly_def lowering_simps)

lemma closeThenOpen_run:
  "FilterExpression_OutputExpression ext closeThenOpen
     = Some (AndExpr [OrExpr [AndExpr [TrueExpr]]], Some ErrorMalformedParenthesis)"
  by (simp add: closeThenOpen_def openOnly_def lowering_simps)

lemma exampleExternals_pcreKeepsParens: "pcreKeepsParens exampleExternals"
  by (simp add: pcreKeepsParens_def exampleExternals_def)

text \<open>
  What the code does with the two totals: a filter expression whose two totals differ is
  lowered to the error \<open>ErrorMalformedParenthesis\<close>, with the empty \<open>OrExpr\<close>, before
  anything else is looked at. When its two totals are equal, the comparison at this level
  raises nothing, and \<open>ErrorMalformedParenthesis\<close> is returned only as the error of a
  nested filter expression of \<open>SubFilterExpr\<close>: some filter expression nested in it has
  two totals that differ. This is for a \<open>MakePcreExpression\<close> that never returns that
  error.
\<close>

theorem OutputExpression_parenthesis_error:
  assumes "pcreKeepsParens ext"
  shows "(totalsDiffer f \<longrightarrow>
            FilterExpression_OutputExpression ext f
              = Some (OrExpr [], Some ErrorMalformedParenthesis))
       \<and> (\<not> totalsDiffer f \<longrightarrow>
            (\<forall>expr. FilterExpression_OutputExpression ext f
                       = Some (expr, Some ErrorMalformedParenthesis)
               \<longrightarrow> (\<exists>s \<in> set (SubFilterExpr f). \<exists>g \<in> set (subFilters s). totalsDiffer g)))"
proof (intro conjI impI allI)
  assume "totalsDiffer f"
  then show "FilterExpression_OutputExpression ext f
      = Some (OrExpr [], Some ErrorMalformedParenthesis)"
    by (cases f) (simp add: totalsDiffer_def)
next
  fix expr
  assume same: "\<not> totalsDiffer f"
    and res: "FilterExpression_OutputExpression ext f
      = Some (expr, Some ErrorMalformedParenthesis)"
  from OutputExpression_parenthesis_source(1) [OF assms res]
  obtain g where g: "g \<in> set (subFilters f)" "totalsDiffer g" by auto
  with same have "g \<noteq> f" by auto
  with g show "\<exists>s \<in> set (SubFilterExpr f). \<exists>g \<in> set (subFilters s). totalsDiffer g"
    by (cases f) auto
qed

theorem OutputExpression_parenthesis_error_witness:
  "pcreKeepsParens exampleExternals
   \<and> totalsDiffer openOnly
   \<and> FilterExpression_OutputExpression exampleExternals openOnly
       = Some (OrExpr [], Some ErrorMalformedParenthesis)
   \<and> \<not> totalsDiffer closeThenOpen
   \<and> FilterExpression_OutputExpression exampleExternals closeThenOpen
       = Some (AndExpr [OrExpr [AndExpr [TrueExpr]]], Some ErrorMalformedParenthesis)
   \<and> SubFilterExpr closeThenOpen = [openOnly]"
proof -
  have d: "totalsDiffer openOnly" and s: "\<not> totalsDiffer closeThenOpen"
    by (simp_all add: totalsDiffer_def openOnly_totals closeThenOpen_totals)
  have sub: "SubFilterExpr closeThenOpen = [openOnly]"
    by (simp add: closeThenOpen_def)
  from OutputExpression_parenthesis_error [OF exampleExternals_pcreKeepsParens, of openOnly] d
  have r1: "FilterExpression_OutputExpression exampleExternals openOnly
      = Some (OrExpr [], Some ErrorMalformedParenthesis)"
    by simp
  from OutputExpression_parenthesis_error [OF exampleExternals_pcreKeepsParens,
      of closeThenOpen] s closeThenOpen_run [of exampleExternals]
  have "\<exists>s \<in> set (SubFilterExpr closeThenOpen). \<exists>g \<in> set (subFilters s). totalsDiffer g"
    by simp
  with exampleExternals_pcreKeepsParens d s r1 sub closeThenOpen_run [of exampleExternals]
  show ?thesis by simp
qed

text \<open>
  The filter expression of \<open>TRUE) AND (TRUE\<close> has one opening and one closing parenthesis
  in all, and its lowering returns \<open>ErrorMalformedParenthesis\<close>: the error of the nested
  filter expression \<open>(TRUE\<close>, returned with the \<open>AndExpr\<close> built so far.
\<close>

theorem matching_totals_parenthesis_error:
  "FilterExpression_GetTotalOpenParens closeThenOpen
     = FilterExpression_GetTotalCloseParens closeThenOpen
   \<and> FilterExpression_OutputExpression exampleExternals closeThenOpen
       = Some (AndExpr [OrExpr [AndExpr [TrueExpr]]], Some ErrorMalformedParenthesis)"
  by (simp add: closeThenOpen_totals closeThenOpen_run)

text \<open>
  Two more filter expressions, as the grammar of the struct tags splits them.
  \<open>nestedAnd\<close> is \<open>((TRUE) AND (TRUE))\<close>: the first and-condition takes \<open>((\<close>, \<open>TRUE\<close> and
  the \<open>)\<close> that follows, and the rest, \<open>(TRUE))\<close>, is the filter expression after \<open>AND\<close>.
  \<open>closeOrOpen\<close> is \<open>TRUE) OR (TRUE\<close>, two and-conditions of one filter expression.
\<close>

definition nestedAnd :: FilterExpression where
  "nestedAnd =
     FilterExpression
       [FEAndCondition [FEOpenParen ''('', FEOpenParen ''(''] [trueCondition]
          [FECloseParen '')'']]
       [FilterExpression
          [FEAndCondition [FEOpenParen ''(''] [trueCondition]
             [FECloseParen '')'', FECloseParen '')'']]
          []]"

definition closeOrOpen :: FilterExpression where
  "closeOrOpen =
     FilterExpression
       [FEAndCondition [] [trueCondition] [FECloseParen '')''],
        FEAndCondition [FEOpenParen ''(''] [trueCondition] []]
       []"

text \<open>
  C9: the comparison of the two totals is meant for the whole expression, and the totals
  of a filter expression already add up those of its nested filter expressions. But the
  nested filter expressions are lowered by the same method, which compares their own
  totals again. So \<open>((TRUE) AND (TRUE))\<close>, with three opening and three closing
  parentheses, all of them matched, is lowered to \<open>ErrorMalformedParenthesis\<close>, because
  the part after \<open>AND\<close> has one opening and two closing parentheses; while
  \<open>TRUE) OR (TRUE\<close>, whose parentheses do not match but whose totals are equal, is
  lowered without an error.
\<close>

theorem balanced_expression_rejected:
  "FilterExpression_GetTotalOpenParens nestedAnd = 3
   \<and> FilterExpression_GetTotalCloseParens nestedAnd = 3
   \<and> FilterExpression_OutputExpression exampleExternals nestedAnd
       = Some (AndExpr [OrExpr [AndExpr [TrueExpr]]], Some ErrorMalformedParenthesis)
   \<and> FilterExpression_GetTotalOpenParens closeOrOpen = 1
   \<and> FilterExpression_GetTotalCloseParens closeOrOpen = 1
   \<and> FilterExpression_OutputExpression exampleExternals closeOrOpen
       = Some (OrExpr [AndExpr [TrueExpr], AndExpr [TrueExpr]], None)"
  by (simp add: nestedAnd_def closeOrOpen_def lowering_simps)

end
